theory Spec2Isabelle
  imports Main "HOL-Library.Word" "HOL-Library.List_Lexorder" "HOL-Library.Char_ord"
begin

section \<open>Go values\<close>

text \<open>
  A Go \<^verbatim>\<open>string\<close> and a \<^verbatim>\<open>[]byte\<close> are sequences of bytes: \<^typ>\<open>string\<close>, a list of
  8-bit characters. \<^verbatim>\<open>len\<close> counts bytes, as \<^const>\<open>length\<close> does. A run-time panic of
  the Go program is a value of \<open>panic\<close>, and a function that can panic returns
  \<open>panic + 'a\<close>.
\<close>

datatype panic =
    SliceBoundsOutOfRange   \<comment> \<open>\<^verbatim>\<open>s[i:j]\<close> outside the slice\<close>
  | MakeCapOutOfRange       \<comment> \<open>\<^verbatim>\<open>make([]byte, 0, n)\<close> with a negative \<^verbatim>\<open>n\<close>\<close>
  | AssignToNilMap          \<comment> \<open>\<^verbatim>\<open>m[k] = v\<close> on a nil map\<close>

text \<open>What \<^verbatim>\<open>json.Unmarshal(data, &existing)\<close> can leave behind for a \<^verbatim>\<open>map[string]string\<close>:
  an error, the nil map (the JSON text \<^verbatim>\<open>null\<close>), or the members of a JSON object in
  document order.\<close>

datatype unmarshalled =
    UnmarshalError
  | JSONNull
  | JSONObject "(string \<times> string) list"

text \<open>
  The functions and constants the program takes from outside the repository (the Go
  standard library and \<^verbatim>\<open>github.com/gosimple/slug\<close>) whose results depend on Unicode
  tables, on the platform or on a JSON grammar. They are parameters of the model: every
  general theorem below holds for any choice of them.
\<close>

record golib =
  filepath_Rel :: "string \<Rightarrow> string \<Rightarrow> string option"
    \<comment> \<open>\<^verbatim>\<open>filepath.Rel(basepath, targpath)\<close>; \<open>None\<close> when it returns an error\<close>
  filepath_Separator :: char
  strings_ToLower :: "string \<Rightarrow> string"
  strings_TrimSpace :: "string \<Rightarrow> string"
  slug_Make :: "int \<Rightarrow> string \<Rightarrow> string"
    \<comment> \<open>\<^verbatim>\<open>slug.Make(text)\<close> under the package variable \<^verbatim>\<open>slug.MaxLength\<close>\<close>
  json_Unmarshal :: "string \<Rightarrow> unmarshalled"
  json_String :: "string \<Rightarrow> string"
    \<comment> \<open>a Go string as encoding/json writes it: quoted and escaped\<close>

section \<open>String functions of the standard library with a byte-level meaning\<close>

definition TrimSuffix :: "string \<Rightarrow> string \<Rightarrow> string" where
  "TrimSuffix s suffix =
     (if length suffix \<le> length s \<and> drop (length s - length suffix) s = suffix
      then take (length s - length suffix) s else s)"

text \<open>\<^verbatim>\<open>strings.ReplaceAll(s, string(filepath.Separator), new)\<close>: the old string is one byte.\<close>

definition ReplaceAll :: "string \<Rightarrow> char \<Rightarrow> string \<Rightarrow> string" where
  "ReplaceAll s old new = concat (map (\<lambda>c. if c = old then new else [c]) s)"

text \<open>\<^verbatim>\<open>strings.Trim(s, cutset)\<close> for a cutset of ASCII bytes.\<close>

definition Trim :: "string \<Rightarrow> string \<Rightarrow> string" where
  "Trim s cutset =
     rev (dropWhile (\<lambda>c. c \<in> set cutset) (rev (dropWhile (\<lambda>c. c \<in> set cutset) s)))"

text \<open>\<^verbatim>\<open>strings.LastIndex(s, substr)\<close> for a one-byte \<^verbatim>\<open>substr\<close>: the index of its last
  occurrence, or \<open>-1\<close>.\<close>

primrec LastIndex :: "string \<Rightarrow> char \<Rightarrow> int" where
  "LastIndex [] c = - 1"
| "LastIndex (x # xs) c =
     (let r = LastIndex xs c
      in if 0 \<le> r then r + 1 else if x = c then 0 else - 1)"

text \<open>
  The character class \<^verbatim>\<open>[a-z0-9]\<close> of the regular expression in \<^verbatim>\<open>slugify\<close>. A UTF-8
  sequence of a character outside ASCII consists of bytes from \<open>0x80\<close> up, none of them
  in the class, and an invalid byte is matched as one character outside the class; so
  the maximal runs of characters outside the class are the maximal runs of bytes
  outside it.
\<close>

definition lower_alnum :: "char \<Rightarrow> bool" where
  "lower_alnum c \<longleftrightarrow> (CHR ''a'' \<le> c \<and> c \<le> CHR ''z'') \<or> (CHR ''0'' \<le> c \<and> c \<le> CHR ''9'')"

text \<open>\<^verbatim>\<open>regexp.MustCompile(`[^a-z0-9]+`).ReplaceAllString(text, "-")\<close>: scanning from the
  left, every match (a longest run outside the class) is replaced by one hyphen.\<close>

function reg_ReplaceAllString :: "string \<Rightarrow> string" where
  "reg_ReplaceAllString [] = []"
| "reg_ReplaceAllString (c # cs) =
     (if lower_alnum c then c # reg_ReplaceAllString cs
      else CHR ''-'' # reg_ReplaceAllString (dropWhile (\<lambda>x. \<not> lower_alnum x) cs))"
  by pat_completeness auto
termination
  by (relation "measure length") (auto simp: less_Suc_eq_le length_dropWhile_le)

text \<open>\<^verbatim>\<open>%d\<close> of \<^verbatim>\<open>fmt.Sprintf\<close>: decimal digits, with a sign for a negative number.\<close>

fun digits :: "nat \<Rightarrow> string" where
  "digits n =
     (if n < 10 then [''0123456789'' ! n]
      else digits (n div 10) @ [''0123456789'' ! (n mod 10)])"

declare digits.simps [simp del]

definition Sprintf_d :: "int \<Rightarrow> string" where
  "Sprintf_d i = (if i < 0 then CHR ''-'' # digits (nat (- i)) else digits (nat i))"

section \<open>Key generator\<close>

text \<open>
  \<^verbatim>\<open>slugify\<close> (main.go, line 632). \<^verbatim>\<open>text[:maxLen]\<close> is reached only when
  \<^verbatim>\<open>len(text) > maxLen\<close>, so it panics exactly when \<^verbatim>\<open>maxLen\<close> is negative.
\<close>

definition slugify :: "golib \<Rightarrow> string \<Rightarrow> int \<Rightarrow> panic + string" where
  "slugify L text maxLen =
     (let text = strings_ToLower L text;
          text = reg_ReplaceAllString text;
          text = Trim text ''-''
      in if int (length text) > maxLen then
           (if maxLen < 0 then Inl SliceBoundsOutOfRange
            else
              let text = take (nat maxLen) text;
                  lastHyphen = LastIndex text (CHR ''-'')
              in Inr (if lastHyphen > 0 then take (nat lastHyphen) text else text))
         else Inr text)"

text \<open>
  The key counter is a \<^verbatim>\<open>map[string]int\<close>; a key that was never stored reads as 0, so
  the model is a total function. Go's \<^verbatim>\<open>int\<close> has 64 bits; a counter reaches no value
  near \<open>2^63\<close> in a run, and the model counts in \<^typ>\<open>int\<close>.
\<close>

type_synonym keycounter = "string \<Rightarrow> int"

text \<open>\<^verbatim>\<open>generateKey\<close> (main.go, line 659): returns the key and the updated counter.\<close>

definition generateKey ::
  "golib \<Rightarrow> string \<Rightarrow> string \<Rightarrow> string \<Rightarrow> int \<Rightarrow> keycounter \<Rightarrow> panic + (string \<times> keycounter)" where
  "generateKey L filePath basePath text maxSlug keyCounter =
     (let relPath = (case filepath_Rel L basePath filePath of None \<Rightarrow> filePath | Some r \<Rightarrow> r);
          relPath = TrimSuffix relPath ''.vue'';
          relPath = strings_ToLower L relPath;
          relPath = ReplaceAll relPath (filepath_Separator L) ''.''
      in case slugify L text maxSlug of
           Inl e \<Rightarrow> Inl e
         | Inr slug \<Rightarrow>
             let key = relPath @ ''.'' @ slug;
                 keyCounter = keyCounter(key := keyCounter key + 1);
                 count = keyCounter key
             in Inr (if count > 1 then key @ ''-'' @ Sprintf_d count else key, keyCounter))"

text \<open>
  \<^verbatim>\<open>generateKey\<close> as main.go defines it at line 73, with \<^verbatim>\<open>slug.Make\<close> for the slug. The
  relative path is computed and then overwritten by \<^verbatim>\<open>strings.TrimSpace(path)\<close>.
\<close>

definition generateKey_slugMake ::
  "golib \<Rightarrow> string \<Rightarrow> string \<Rightarrow> string \<Rightarrow> int \<Rightarrow> keycounter \<Rightarrow> string \<times> keycounter" where
  "generateKey_slugMake L path basepath text maxslug keycounter =
     (let relpath = (case filepath_Rel L basepath path of None \<Rightarrow> path | Some r \<Rightarrow> r);
          relpath = strings_TrimSpace L path;
          relpath = TrimSuffix relpath ''.vue'';
          relpath = strings_ToLower L relpath;
          relpath = ReplaceAll relpath (filepath_Separator L) ''.'';
          sluged = slug_Make L maxslug text;
          key = relpath @ ''.'' @ sluged;
          keycounter = keycounter(key := keycounter key + 1)
      in (if keycounter key > 1 then key @ ''-'' @ Sprintf_d (keycounter key) else key,
          keycounter))"

text \<open>
  The calls of one run: \<^verbatim>\<open>parse\<close> calls \<^verbatim>\<open>generateKey\<close> once for every text node, file after
  file, always with the counter \<^verbatim>\<open>main\<close> created. An input is
  \<open>(filePath, basePath, text, maxSlug)\<close>; a panic ends the run.
\<close>

type_synonym keyinput = "string \<times> string \<times> string \<times> int"

fun generateKeys :: "golib \<Rightarrow> keyinput list \<Rightarrow> keycounter \<Rightarrow> panic + (string list \<times> keycounter)" where
  "generateKeys L [] kc = Inr ([], kc)"
| "generateKeys L ((p, b, t, n) # rest) kc =
     (case generateKey L p b t n kc of
        Inl e \<Rightarrow> Inl e
      | Inr (k, kc') \<Rightarrow>
          (case generateKeys L rest kc' of
             Inl e \<Rightarrow> Inl e
           | Inr (ks, kc'') \<Rightarrow> Inr (k # ks, kc'')))"

text \<open>The same calls with \<^verbatim>\<open>generateKey\<close> of line 73, which does not panic.\<close>

fun generateKeys_slugMake :: "golib \<Rightarrow> keyinput list \<Rightarrow> keycounter \<Rightarrow> string list \<times> keycounter" where
  "generateKeys_slugMake L [] kc = ([], kc)"
| "generateKeys_slugMake L ((p, b, t, n) # rest) kc =
     (case generateKey_slugMake L p b t n kc of
        (k, kc') \<Rightarrow>
          (case generateKeys_slugMake L rest kc' of (ks, kc'') \<Rightarrow> (k # ks, kc'')))"

text \<open>The counter \<^verbatim>\<open>main\<close> creates with \<^verbatim>\<open>make(map[string]int)\<close>.\<close>

definition fresh :: keycounter where
  "fresh = (\<lambda>_. 0)"

section \<open>Rewriter\<close>

text \<open>The struct \<^verbatim>\<open>Match\<close>. Go's \<^verbatim>\<open>uint\<close> is taken with 64 bits.\<close>

record Match =
  Line :: int
  File :: string
  Text :: string
  StartByte :: "64 word"
  EndByte :: "64 word"
  Key :: string

text \<open>
  A \<^verbatim>\<open>[]byte\<close> with its capacity: \<open>elems\<close> are the bytes up to \<^verbatim>\<open>len\<close>, \<open>spare\<close> the bytes
  of the backing array from \<^verbatim>\<open>len\<close> to \<^verbatim>\<open>cap\<close>. The slice expression \<^verbatim>\<open>s[:j]\<close> is checked
  against \<^verbatim>\<open>cap(s)\<close> and can reach into the spare part; \<^verbatim>\<open>s[i:]\<close> is checked against
  \<^verbatim>\<open>len(s)\<close>. (\<^verbatim>\<open>os.ReadFile\<close> returns a slice with spare capacity.)
\<close>

record bytes =
  elems :: string
  spare :: string

text \<open>
  \<^verbatim>\<open>replaceInFile\<close> (main.go, lines 96 and 693). In each round: \<open>n\<close> is the capacity
  asked of \<^verbatim>\<open>make\<close>, with \<^verbatim>\<open>int(m.EndByte-m.StartByte)\<close> the unsigned difference read as a
  signed number; \<^verbatim>\<open>make\<close> panics on a negative capacity, then the two slice expressions
  are checked. The new buffer has the capacity \<open>n\<close>; its spare part is what \<^verbatim>\<open>make\<close>
  zeroed and the appends did not fill. The sum \<open>n\<close> is taken in \<^typ>\<open>int\<close>: in 64 bits it
  can wrap only when an offset lies beyond every buffer, where the round panics either
  way.
\<close>

fun replaceInFile :: "bytes \<Rightarrow> Match list \<Rightarrow> panic + bytes" where
  "replaceInFile content [] = Inr content"
| "replaceInFile content (m # matches) =
     (let replacement = ''{{ $t('' @ [CHR 0x27] @ Key m @ [CHR 0x27] @ '') }}'';
          n = int (length (elems content)) - sint (EndByte m - StartByte m)
                + int (length replacement)
      in if n < 0 then Inl MakeCapOutOfRange
         else if length (elems content) + length (spare content) < unat (StartByte m)
           then Inl SliceBoundsOutOfRange
         else if length (elems content) < unat (EndByte m)
           then Inl SliceBoundsOutOfRange
         else
           let newContent =
                 take (unat (StartByte m)) (elems content @ spare content)
                 @ replacement @ drop (unat (EndByte m)) (elems content)
           in replaceInFile
                \<lparr>elems = newContent, spare = replicate (nat n - length newContent) (CHR 0x00)\<rparr>
                matches)"

section \<open>Catalog merger\<close>

text \<open>
  A \<^verbatim>\<open>map[string]string\<close> is the list of its entries, each key once; a \<^verbatim>\<open>range\<close> loop visits
  them in an order Go leaves open, here the order of the list, and no result below
  depends on it. The nil map is \<open>None\<close>: it reads as empty, and storing into it panics.
\<close>

type_synonym gomap = "(string \<times> string) list"

text \<open>\<^verbatim>\<open>m[k] = v\<close> on a map that is not nil.\<close>

fun mapassign :: "gomap \<Rightarrow> string \<Rightarrow> string \<Rightarrow> gomap" where
  "mapassign [] k v = [(k, v)]"
| "mapassign ((k', v') # m) k v =
     (if k' = k then (k, v) # m else (k', v') # mapassign m k v)"

text \<open>The entries a \<^verbatim>\<open>range\<close> loop visits, and \<^verbatim>\<open>m[k]\<close> as a value (the empty string for a
  missing key).\<close>

definition maprange :: "gomap option \<Rightarrow> gomap" where
  "maprange m = (case m of None \<Rightarrow> [] | Some es \<Rightarrow> es)"

definition mapindex :: "gomap option \<Rightarrow> string \<Rightarrow> string" where
  "mapindex m k = (case map_of (maprange m) k of None \<Rightarrow> [] | Some v \<Rightarrow> v)"

text \<open>
  The file system as \<^verbatim>\<open>writeLocaleFile\<close> meets it: the files by path, the paths whose
  reading fails for a reason other than absence (permissions, a directory, an I/O
  error), and what happens to a write: it succeeds, it fails when the file is opened
  (nothing changes), or it fails after the file was truncated and some bytes were
  written.
\<close>

datatype write_fault = NoFault | OpenFails | WriteStops nat

datatype io_error = ErrNotExist | ErrOther

record filesystem =
  files :: "string \<rightharpoonup> string"
  read_fault :: "string \<Rightarrow> bool"
  write_fault :: "string \<Rightarrow> write_fault"

definition ReadFile :: "filesystem \<Rightarrow> string \<Rightarrow> io_error + string" where
  "ReadFile fs name =
     (if read_fault fs name then Inl ErrOther
      else case files fs name of None \<Rightarrow> Inl ErrNotExist | Some data \<Rightarrow> Inr data)"

definition WriteFile :: "filesystem \<Rightarrow> string \<Rightarrow> string \<Rightarrow> io_error option \<times> filesystem" where
  "WriteFile fs name data =
     (case write_fault fs name of
        NoFault \<Rightarrow> (None, fs\<lparr>files := (files fs)(name \<mapsto> data)\<rparr>)
      | OpenFails \<Rightarrow> (Some ErrOther, fs)
      | WriteStops n \<Rightarrow> (Some ErrOther, fs\<lparr>files := (files fs)(name \<mapsto> take n data)\<rparr>))"

fun join :: "string \<Rightarrow> string list \<Rightarrow> string" where
  "join sep [] = []"
| "join sep [x] = x"
| "join sep (x # y # ys) = x @ sep @ join sep (y # ys)"

text \<open>
  Modelled from the spec: \<^verbatim>\<open>json.MarshalIndent\<close> is encoding/json's and not part of the
  repository's files. The specification gives the catalog file format: a JSON object,
  2-space indented, \<^verbatim>\<open>{ "<key>": "<original text>", ... }\<close>, keys sorted ascending
  (encoding/json writes the keys of a map in sorted order, whatever the map holds; an
  empty map is written as \<^verbatim>\<open>{}\<close>). \<open>object_text\<close> is the layout of given members,
  \<open>MarshalIndent\<close> the call \<^verbatim>\<open>json.MarshalIndent(m, "", "  ")\<close>, which cannot fail for a
  \<^verbatim>\<open>map[string]string\<close>.
\<close>

definition object_text :: "golib \<Rightarrow> gomap \<Rightarrow> string" where
  "object_text L es =
     (if es = [] then ''{}''
      else ''{'' @ [CHR 0x0A]
           @ join ('','' @ [CHR 0x0A])
               (map (\<lambda>(k, v). ''  '' @ json_String L k @ '': '' @ json_String L v) es)
           @ [CHR 0x0A] @ ''}'')"

text \<open>Modelled from the spec: \<^verbatim>\<open>json.MarshalIndent\<close> (not in the repository's files) writes
  the members of the map in ascending order of their keys, in the layout above.\<close>

definition MarshalIndent :: "golib \<Rightarrow> gomap \<Rightarrow> unit + string" where
  "MarshalIndent L m = Inr (object_text L (sort_key fst m))"

datatype locale_error =
    ParseExisting    \<comment> \<open>\<^verbatim>\<open>failed to parse existing locale file\<close>\<close>
  | MarshalLocale    \<comment> \<open>\<^verbatim>\<open>failed to marshal locale file\<close>\<close>
  | WriteLocale      \<comment> \<open>\<^verbatim>\<open>failed to write locale file\<close>\<close>

text \<open>The loop \<^verbatim>\<open>for key, value := range translations\<close> of \<^verbatim>\<open>writeLocaleFile\<close>.\<close>

fun merge_translations :: "gomap option \<Rightarrow> gomap \<Rightarrow> panic + gomap option" where
  "merge_translations existing [] = Inr existing"
| "merge_translations existing ((key, value) # rest) =
     (if map_of (maprange existing) key = None then
        (case existing of
           None \<Rightarrow> Inl AssignToNilMap
         | Some m \<Rightarrow> merge_translations (Some (mapassign m key value)) rest)
      else merge_translations existing rest)"

text \<open>
  \<^verbatim>\<open>writeLocaleFile\<close> (main.go, lines 108 and 706): the error returned (\<open>None\<close> for
  \<^verbatim>\<open>nil\<close>) and the file system afterwards. \<^verbatim>\<open>json.Unmarshal\<close> stores the members of the
  object into \<^verbatim>\<open>existing\<close> one after the other. \<^verbatim>\<open>translations\<close> is the list of entries of
  the caller's map.
\<close>

definition writeLocaleFile ::
  "golib \<Rightarrow> filesystem \<Rightarrow> string \<Rightarrow> gomap \<Rightarrow> panic + (locale_error option \<times> filesystem)" where
  "writeLocaleFile L fs path translations =
     (case (case ReadFile fs path of
              Inl err \<Rightarrow> Inr (Some [])
            | Inr data \<Rightarrow>
                (case json_Unmarshal L data of
                   UnmarshalError \<Rightarrow> Inl ParseExisting
                 | JSONNull \<Rightarrow> Inr None
                 | JSONObject members \<Rightarrow>
                     Inr (Some (foldl (\<lambda>m (k, v). mapassign m k v) [] members)))) of
        Inl e \<Rightarrow> Inr (Some e, fs)
      | Inr existing \<Rightarrow>
          (case merge_translations existing translations of
             Inl p \<Rightarrow> Inl p
           | Inr existing \<Rightarrow>
               let keys = sort (map fst (maprange existing));
                   ordered = foldl (\<lambda>m k. mapassign m k (mapindex existing k)) [] keys
               in case MarshalIndent L ordered of
                    Inl err \<Rightarrow> Inr (Some MarshalLocale, fs)
                  | Inr output \<Rightarrow>
                      (case WriteFile fs path output of
                         (Some err, fs') \<Rightarrow> Inr (Some WriteLocale, fs')
                       | (None, fs') \<Rightarrow> Inr (None, fs'))))"

section \<open>The library on ASCII text and on paths below the base\<close>

text \<open>
  For evaluating the program on concrete inputs the library is fixed on the inputs the
  examples use: \<^verbatim>\<open>strings.ToLower\<close> and \<^verbatim>\<open>strings.TrimSpace\<close> on ASCII strings,
  \<^verbatim>\<open>filepath.Rel\<close> on a clean target that is the clean base or lies below it (on other
  pairs this instance reports an error, as the library does for a relative base and an
  absolute target), the separator of Unix, \<^verbatim>\<open>slug.Make\<close> on a lower-case alphanumeric
  word shorter than the maximum (left as it is), JSON strings without characters that
  need escaping, and \<^verbatim>\<open>json.Unmarshal\<close> on the three documents of \<open>unmarshal_examples\<close>
  (every other document is reported as an error here).
\<close>

definition ascii_lower :: "char \<Rightarrow> char" where
  "ascii_lower c =
     (if CHR ''A'' \<le> c \<and> c \<le> CHR ''Z'' then char_of (of_char c + (32::nat)) else c)"

definition ascii_space :: "char \<Rightarrow> bool" where
  "ascii_space c \<longleftrightarrow> c \<in> set [CHR '' '', CHR 0x09, CHR 0x0A, CHR 0x0B, CHR 0x0C, CHR 0x0D]"

definition rel_below :: "string \<Rightarrow> string \<Rightarrow> string option" where
  "rel_below base targ =
     (if targ = base then Some ''.''
      else if take (length base + 1) targ = base @ ''/''
      then Some (drop (length base + 1) targ)
      else None)"

definition unmarshal_examples :: "string \<Rightarrow> unmarshalled" where
  \<open>unmarshal_examples data =
     (if data = ''{'' @ [CHR 0x0A] @ ''  "a.b": "Old"'' @ [CHR 0x0A] @ ''}''
      then JSONObject [(''a.b'', ''Old'')]
      else if data = ''{}'' then JSONObject []
      else if data = ''null'' then JSONNull
      else UnmarshalError)\<close>

definition golib_ascii :: golib where
  "golib_ascii =
     \<lparr> filepath_Rel = rel_below,
       filepath_Separator = CHR ''/'',
       strings_ToLower = map ascii_lower,
       strings_TrimSpace = (\<lambda>s. rev (dropWhile ascii_space (rev (dropWhile ascii_space s)))),
       slug_Make = (\<lambda>n t. t),
       json_Unmarshal = unmarshal_examples,
       json_String = (\<lambda>s. CHR 0x22 # s @ [CHR 0x22]) \<rparr>"

section \<open>Reference definitions\<close>

subsection \<open>The slug, as the specification words it\<close>

text \<open>The maximal runs of a list: neighbouring elements that agree on \<open>P\<close> share a run.\<close>

fun runs :: "('a \<Rightarrow> bool) \<Rightarrow> 'a list \<Rightarrow> 'a list list" where
  "runs P [] = []"
| "runs P (c # cs) =
     (case runs P cs of
        [] \<Rightarrow> [[c]]
      | r # rs \<Rightarrow> if P c = P (hd r) then (c # r) # rs else [c] # r # rs)"

text \<open>Every maximal run of characters outside \<^verbatim>\<open>[a-z0-9]\<close> becomes a single hyphen.\<close>

definition collapse_runs :: "string \<Rightarrow> string" where
  "collapse_runs s =
     concat (map (\<lambda>r. if lower_alnum (hd r) then r else ''-'') (runs lower_alnum s))"

text \<open>Cut back to the last hyphen at a position greater than 0 when there is one;
  otherwise keep the string.\<close>

definition cut_back :: "string \<Rightarrow> string" where
  "cut_back t =
     (let ps = filter (\<lambda>i. t ! i = CHR ''-'') [1..<length t]
      in if ps = [] then t else take (last ps) t)"

definition slugify_spec :: "(string \<Rightarrow> string) \<Rightarrow> string \<Rightarrow> nat \<Rightarrow> string" where
  "slugify_spec lower text n =
     (let s = Trim (collapse_runs (lower text)) ''-''
      in if n < length s then cut_back (take n s) else s)"

subsection \<open>Candidate keys and their numbering\<close>

text \<open>The path stem: the path relative to the base when \<^verbatim>\<open>filepath.Rel\<close> gives one, the
  raw path otherwise; without the suffix \<^verbatim>\<open>.vue\<close>, in lower case, separators as dots.\<close>

definition pathStem :: "golib \<Rightarrow> string \<Rightarrow> string \<Rightarrow> string" where
  "pathStem L filePath basePath =
     ReplaceAll
       (strings_ToLower L
         (TrimSuffix
           (case filepath_Rel L basePath filePath of None \<Rightarrow> filePath | Some r \<Rightarrow> r) ''.vue''))
       (filepath_Separator L) ''.''"

text \<open>The candidate key of a call: the key before the counter is consulted.\<close>

fun candidateKey :: "golib \<Rightarrow> keyinput \<Rightarrow> panic + string" where
  "candidateKey L (filePath, basePath, text, maxSlug) =
     (case slugify L text maxSlug of
        Inl e \<Rightarrow> Inl e
      | Inr slug \<Rightarrow> Inr (pathStem L filePath basePath @ ''.'' @ slug))"

fun candidateKey_slugMake :: "golib \<Rightarrow> keyinput \<Rightarrow> string" where
  "candidateKey_slugMake L (path, basepath, text, maxslug) =
     ReplaceAll (strings_ToLower L (TrimSuffix (strings_TrimSpace L path) ''.vue''))
       (filepath_Separator L) ''.''
     @ ''.'' @ slug_Make L maxslug text"

definition numberKey :: "string \<Rightarrow> int \<Rightarrow> string" where
  "numberKey key count = (if count > 1 then key @ ''-'' @ Sprintf_d count else key)"

text \<open>The collision handling alone, run over the candidate keys of successive calls.\<close>

fun runKeys :: "(panic + string) list \<Rightarrow> keycounter \<Rightarrow> panic + (string list \<times> keycounter)" where
  "runKeys [] kc = Inr ([], kc)"
| "runKeys (Inl e # rs) kc = Inl e"
| "runKeys (Inr c # rs) kc =
     (case runKeys rs (kc(c := kc c + 1)) of
        Inl e \<Rightarrow> Inl e
      | Inr (ks, kc') \<Rightarrow> Inr (numberKey c (kc c + 1) # ks, kc'))"

text \<open>\<open>occurrence cs i\<close>: how many of the first \<open>i + 1\<close> candidates equal the \<open>i\<close>-th one.
  \<open>suffixed cs\<close>: the first occurrence of a candidate bare, the \<open>n\<close>-th one with \<open>-n\<close>.\<close>

definition occurrence :: "'a list \<Rightarrow> nat \<Rightarrow> nat" where
  "occurrence cs i = count_list (take (Suc i) cs) (cs ! i)"

definition suffixed :: "string list \<Rightarrow> string list" where
  "suffixed cs =
     map (\<lambda>i. if occurrence cs i = 1 then cs ! i
              else cs ! i @ ''-'' @ digits (occurrence cs i)) [0..<length cs]"

subsection \<open>The rewrite, as the specification words it\<close>

definition startOffset :: "Match \<Rightarrow> nat" where
  "startOffset m = unat (StartByte m)"

definition endOffset :: "Match \<Rightarrow> nat" where
  "endOffset m = unat (EndByte m)"

definition formatReplacement :: "string \<Rightarrow> string" where
  "formatReplacement key = ''{{ $t('' @ [CHR 0x27] @ key @ [CHR 0x27] @ '') }}''"

text \<open>\<^verbatim>\<open>content[0:startOffset] + formatReplacement(key) + content[endOffset:]\<close>, folded over
  the spans in the order given.\<close>

definition rewrite_step :: "string \<Rightarrow> Match \<Rightarrow> string" where
  "rewrite_step content m =
     take (startOffset m) content @ formatReplacement (Key m) @ drop (endOffset m) content"

definition rewrite :: "string \<Rightarrow> Match list \<Rightarrow> string" where
  "rewrite content spans = foldl rewrite_step content spans"

text \<open>Sorted by start offset in descending order; no two spans of the list overlap.\<close>

definition descending :: "Match list \<Rightarrow> bool" where
  "descending ms = sorted_wrt (\<lambda>a b. startOffset b \<le> startOffset a) ms"

definition non_overlapping :: "Match list \<Rightarrow> bool" where
  "non_overlapping ms =
     sorted_wrt (\<lambda>a b. endOffset a \<le> startOffset b \<or> endOffset b \<le> startOffset a) ms"

text \<open>Every slice of every round lies within the length of the buffer of that round.\<close>

fun slices_in_bounds :: "string \<Rightarrow> Match list \<Rightarrow> bool" where
  "slices_in_bounds content [] = True"
| "slices_in_bounds content (m # ms) =
     (startOffset m \<le> endOffset m \<and> endOffset m \<le> length content
      \<and> slices_in_bounds (rewrite_step content m) ms)"

text \<open>
  For spans in ascending order: the bytes of \<open>content\<close> from \<open>p\<close> on that lie outside the
  spans, in their order, each span's place taken by its replacement.
\<close>

fun pieces :: "string \<Rightarrow> nat \<Rightarrow> Match list \<Rightarrow> string" where
  "pieces content p [] = drop p content"
| "pieces content p (m # ms) =
     take (startOffset m - p) (drop p content) @ formatReplacement (Key m)
     @ pieces content (endOffset m) ms"

text \<open>Spans within \<open>n\<close>, each ending where the one before it in the list starts, or earlier.\<close>

fun stacked :: "nat \<Rightarrow> Match list \<Rightarrow> bool" where
  "stacked n [] = True"
| "stacked n (m # ms) =
     (startOffset m \<le> endOffset m \<and> endOffset m \<le> n \<and> stacked (startOffset m) ms)"

text \<open>
  Where a byte of the input ends up: \<open>outside ms i\<close> says that position \<open>i\<close> lies in no
  span, and \<open>shift ms i\<close> is the growth of the text before it, the sum over the spans that
  end at or before \<open>i\<close> of the length of the replacement minus the length of the span.
\<close>

definition outside :: "Match list \<Rightarrow> nat \<Rightarrow> bool" where
  "outside ms i = list_all (\<lambda>m. i < startOffset m \<or> endOffset m \<le> i) ms"

definition growth :: "Match \<Rightarrow> int" where
  "growth m = int (length (formatReplacement (Key m))) - (int (endOffset m) - int (startOffset m))"

definition shift :: "Match list \<Rightarrow> nat \<Rightarrow> int" where
  "shift ms i = sum_list (map (\<lambda>m. if endOffset m \<le> i then growth m else 0) ms)"

subsection \<open>The catalog a merge starts from\<close>

text \<open>The catalog on disk as a mapping: what the file's JSON object holds (a later member
  of the same key wins), and nothing when the file cannot be read or holds \<^verbatim>\<open>null\<close>.\<close>

definition existing_catalog :: "golib \<Rightarrow> filesystem \<Rightarrow> string \<Rightarrow> (string \<rightharpoonup> string)" where
  "existing_catalog L fs path =
     (case ReadFile fs path of
        Inl err \<Rightarrow> Map.empty
      | Inr data \<Rightarrow>
          (case json_Unmarshal L data of
             JSONObject members \<Rightarrow> map_of (rev members)
           | _ \<Rightarrow> Map.empty))"

text \<open>The first block of \<^verbatim>\<open>writeLocaleFile\<close>: the map it goes on with, or the parse error.\<close>

definition loaded_catalog :: "golib \<Rightarrow> filesystem \<Rightarrow> string \<Rightarrow> locale_error + gomap option" where
  "loaded_catalog L fs path =
     (case ReadFile fs path of
        Inl err \<Rightarrow> Inr (Some [])
      | Inr data \<Rightarrow>
          (case json_Unmarshal L data of
             UnmarshalError \<Rightarrow> Inl ParseExisting
           | JSONNull \<Rightarrow> Inr None
           | JSONObject members \<Rightarrow>
               Inr (Some (foldl (\<lambda>m (k, v). mapassign m k v) [] members))))"

text \<open>What a call leaves to observe: the error returned and the bytes of the file.\<close>

definition outcome ::
  "string \<Rightarrow> panic + (locale_error option \<times> filesystem) \<Rightarrow> panic + (locale_error option \<times> string option)" where
  "outcome path r = map_sum id (\<lambda>(e, fs'). (e, files fs' path)) r"

subsection \<open>File systems of the examples\<close>

text \<open>The catalog \<^verbatim>\<open>{"a.b": "Old"}\<close> in \<^verbatim>\<open>en.json\<close>, readable and writable; the same file
  with reads failing (say, for lack of permission); and no file at all.\<close>

definition fs_old :: filesystem where
  \<open>fs_old =
     \<lparr> files = [''en.json'' \<mapsto> ''{'' @ [CHR 0x0A] @ ''  "a.b": "Old"'' @ [CHR 0x0A] @ ''}''],
       read_fault = (\<lambda>name. False),
       write_fault = (\<lambda>name. NoFault) \<rparr>\<close>

definition fs_unreadable :: filesystem where
  "fs_unreadable = fs_old\<lparr>read_fault := (\<lambda>name. True)\<rparr>"

definition fs_empty :: filesystem where
  "fs_empty = fs_old\<lparr>files := Map.empty\<rparr>"

section \<open>Slugs\<close>

lemma runs_hd:
  "runs P (c # cs) \<noteq> [] \<and> hd (runs P (c # cs)) \<noteq> [] \<and> hd (hd (runs P (c # cs))) = c"
  by (simp split: list.splits)

lemma collapse_keep:
  assumes "lower_alnum c"
  shows "collapse_runs (c # cs) = c # collapse_runs cs"
  using assms by (simp add: collapse_runs_def split: list.splits)

lemma collapse_skip:
  assumes "\<not> lower_alnum c"
  shows "collapse_runs (c # cs) = CHR ''-'' # collapse_runs (dropWhile (\<lambda>x. \<not> lower_alnum x) cs)"
  using assms
proof (induction cs arbitrary: c)
  case Nil
  then show ?case by (simp add: collapse_runs_def)
next
  case (Cons d ds)
  obtain r rs where rr: "runs lower_alnum (d # ds) = r # rs" and hd: "hd r = d"
    using runs_hd [of lower_alnum d ds] by (cases "runs lower_alnum (d # ds)") auto
  show ?case
  proof (cases "lower_alnum d")
    case True
    have "runs lower_alnum (c # d # ds) = [c] # r # rs"
      using rr hd True Cons.prems by (simp del: runs.simps(2) add: runs.simps(2) [of _ c])
    then show ?thesis
      using True Cons.prems rr by (simp add: collapse_runs_def del: runs.simps)
  next
    case False
    have "runs lower_alnum (c # d # ds) = (c # r) # rs"
      using rr hd False Cons.prems by (simp del: runs.simps(2) add: runs.simps(2) [of _ c])
    moreover have "collapse_runs (d # ds) =
        CHR ''-'' # collapse_runs (dropWhile (\<lambda>x. \<not> lower_alnum x) ds)"
      using Cons.IH [OF False] .
    ultimately show ?thesis
      using False Cons.prems rr hd by (simp add: collapse_runs_def del: runs.simps)
  qed
qed

text \<open>The scanner of the regular expression replaces exactly the maximal runs.\<close>

lemma reg_ReplaceAllString_runs: "reg_ReplaceAllString s = collapse_runs s"
proof (induction s rule: reg_ReplaceAllString.induct)
  case 1
  show ?case by (simp add: collapse_runs_def)
next
  case (2 c cs)
  then show ?case by (simp add: collapse_keep collapse_skip)
qed

lemma LastIndex_range: "- 1 \<le> LastIndex t c \<and> LastIndex t c < int (length t)"
  by (induction t) (auto simp: Let_def)

lemma LastIndex_neg: "LastIndex t c < 0 \<Longrightarrow> c \<notin> set t"
  by (induction t) (auto simp: Let_def split: if_splits)

lemma LastIndex_hit:
  "0 \<le> LastIndex t c \<Longrightarrow>
     t ! nat (LastIndex t c) = c \<and> (\<forall>j. nat (LastIndex t c) < j \<and> j < length t \<longrightarrow> t ! j \<noteq> c)"
proof (induction t)
  case Nil
  then show ?case by simp
next
  case (Cons x xs)
  show ?case
  proof (cases "0 \<le> LastIndex xs c")
    case True
    then have eq: "LastIndex (x # xs) c = LastIndex xs c + 1" by (simp add: Let_def)
    have n: "nat (LastIndex xs c + 1) = Suc (nat (LastIndex xs c))" using True by simp
    show ?thesis
      using Cons.IH [OF True] unfolding eq n
      by (auto simp: nth_Cons split: nat.splits)
  next
    case False
    then have notin: "c \<notin> set xs" using LastIndex_neg [of xs c] by simp
    have xc: "x = c" and eq0: "LastIndex (x # xs) c = 0"
      using False Cons.prems by (auto simp: Let_def split: if_splits)
    have "\<forall>j. 0 < j \<and> j < length (x # xs) \<longrightarrow> (x # xs) ! j \<noteq> c"
      using notin by (auto simp: nth_Cons split: nat.splits)
    then show ?thesis unfolding eq0 using xc by simp
  qed
qed

lemma last_filter_upt:
  assumes "a \<le> i" "i < n" "Q i" "\<forall>j. i < j \<and> j < n \<longrightarrow> \<not> Q j"
  shows "filter Q [a..<n] \<noteq> [] \<and> last (filter Q [a..<n]) = i"
proof -
  obtain k where k: "n = i + k"
    using assms(2) by (metis less_imp_add_positive)
  have "[a..<n] = [a..<i] @ [i..<n]"
    unfolding k using assms(1) by (rule upt_add_eq_append)
  moreover have "[i..<n] = i # [Suc i..<n]"
    using assms(2) by (rule upt_conv_Cons)
  ultimately have split: "[a..<n] = [a..<i] @ i # [Suc i..<n]"
    by simp
  have "filter Q [Suc i..<n] = []"
    using assms(4) by (auto simp: filter_empty_conv)
  then show ?thesis
    using assms(3) by (simp add: split)
qed

lemma cut_back_LastIndex:
  "(if LastIndex t (CHR ''-'') > 0 then take (nat (LastIndex t (CHR ''-''))) t else t) = cut_back t"
proof (cases "LastIndex t (CHR ''-'') > 0")
  case True
  let ?i = "nat (LastIndex t (CHR ''-''))"
  have h: "t ! ?i = CHR ''-'' \<and> (\<forall>j. ?i < j \<and> j < length t \<longrightarrow> t ! j \<noteq> CHR ''-'')"
    using LastIndex_hit [of t "CHR ''-''"] True by simp
  have "1 \<le> ?i" "?i < length t"
    using True LastIndex_range [of t "CHR ''-''"] by auto
  then have "filter (\<lambda>i. t ! i = CHR ''-'') [1..<length t] \<noteq> [] \<and>
             last (filter (\<lambda>i. t ! i = CHR ''-'') [1..<length t]) = ?i"
    using h by (intro last_filter_upt) auto
  then show ?thesis using True by (simp add: cut_back_def Let_def)
next
  case False
  have "\<forall>j. 1 \<le> j \<and> j < length t \<longrightarrow> t ! j \<noteq> CHR ''-''"
  proof (cases "LastIndex t (CHR ''-'') < 0")
    case True
    then show ?thesis using LastIndex_neg [of t "CHR ''-''"] by (auto simp: in_set_conv_nth)
  next
    case f: False
    with False have z: "LastIndex t (CHR ''-'') = 0" by simp
    show ?thesis using LastIndex_hit [of t "CHR ''-''"] z by auto
  qed
  then have "filter (\<lambda>i. t ! i = CHR ''-'') [1..<length t] = []"
    by (auto simp: filter_empty_conv)
  then show ?thesis using False by (simp add: cut_back_def)
qed

lemma slugify_spec_eq:
  assumes "0 \<le> maxLen"
  shows "slugify L text maxLen = Inr (slugify_spec (strings_ToLower L) text (nat maxLen))"
proof -
  let ?s = "Trim (reg_ReplaceAllString (strings_ToLower L text)) ''-''"
  have c: "int (length ?s) > maxLen \<longleftrightarrow> nat maxLen < length ?s"
    using assms by linarith
  show ?thesis
    using assms cut_back_LastIndex [of "take (nat maxLen) ?s"]
    by (simp add: slugify_def slugify_spec_def Let_def c reg_ReplaceAllString_runs [symmetric])
qed

text \<open>A negative maximum is no length: the slice expression panics, whatever the text.\<close>

lemma slugify_negative: "maxLen < 0 \<Longrightarrow> slugify L text maxLen = Inl SliceBoundsOutOfRange"
  by (simp add: slugify_def Let_def)

text \<open>
  C6. For a maximum length \<open>maxLen \<ge> 0\<close>, \<^verbatim>\<open>slugify\<close> returns the text in lower case, every
  maximal run of characters outside \<^verbatim>\<open>[a-z0-9]\<close> replaced by one hyphen, leading and
  trailing hyphens trimmed, and, when that is longer than \<open>maxLen\<close>, truncated to
  \<open>maxLen\<close> and cut back to the last hyphen at a position greater than 0 if there is one.
  \<^verbatim>\<open>slugify("hello world wonderful", 8)\<close> is \<^verbatim>\<open>"hello"\<close> and \<^verbatim>\<open>slugify("abcdefgh", 5)\<close> is
  \<^verbatim>\<open>"abcde"\<close>.
\<close>

theorem slugify_meets_spec:
  "(0 \<le> maxLen \<longrightarrow>
      slugify L text maxLen = Inr (slugify_spec (strings_ToLower L) text (nat maxLen)))
   \<and> slugify golib_ascii ''hello world wonderful'' 8 = Inr ''hello''
   \<and> slugify golib_ascii ''abcdefgh'' 5 = Inr ''abcde''"
proof (intro conjI impI)
  assume "0 \<le> maxLen"
  then show "slugify L text maxLen = Inr (slugify_spec (strings_ToLower L) text (nat maxLen))"
    by (rule slugify_spec_eq)
next
  show "slugify golib_ascii ''hello world wonderful'' 8 = Inr ''hello''"
    by code_simp
next
  show "slugify golib_ascii ''abcdefgh'' 5 = Inr ''abcde''"
    by code_simp
qed

theorem slugify_meets_spec_witness:
  "(0::int) \<le> 30
   \<and> slugify golib_ascii ''Save & Continue...'' 30 = Inr ''save-continue''
   \<and> slugify_spec (strings_ToLower golib_ascii) ''Save & Continue...'' (nat 30) = ''save-continue''"
proof -
  have s: "slugify_spec (strings_ToLower golib_ascii) ''Save & Continue...'' (nat 30) = ''save-continue''"
    by code_simp
  have "slugify golib_ascii ''Save & Continue...'' 30
          = Inr (slugify_spec (strings_ToLower golib_ascii) ''Save & Continue...'' (nat 30))"
    using slugify_meets_spec [of 30 golib_ascii "''Save & Continue...''"] by simp
  then show ?thesis using s by simp
qed

section \<open>Keys\<close>

lemma generateKey_candidate:
  "generateKey L p b t n kc =
     (case candidateKey L (p, b, t, n) of
        Inl e \<Rightarrow> Inl e
      | Inr key \<Rightarrow> Inr (numberKey key (kc key + 1), kc(key := kc key + 1)))"
  by (simp add: generateKey_def pathStem_def numberKey_def Let_def split: sum.splits)

lemma generateKey_slugMake_candidate:
  "generateKey_slugMake L p b t n kc =
     (let key = candidateKey_slugMake L (p, b, t, n)
      in (numberKey key (kc key + 1), kc(key := kc key + 1)))"
  by (simp add: generateKey_slugMake_def numberKey_def Let_def)

lemma generateKeys_runKeys: "generateKeys L xs kc = runKeys (map (candidateKey L) xs) kc"
proof (induction xs arbitrary: kc)
  case Nil
  show ?case by simp
next
  case (Cons x xs)
  obtain p b t n where x: "x = (p, b, t, n)" by (cases x) auto
  show ?case
  proof (cases "candidateKey L x")
    case (Inl e)
    then show ?thesis unfolding x by (simp add: generateKey_candidate)
  next
    case (Inr key)
    then show ?thesis unfolding x by (simp add: generateKey_candidate Cons.IH)
  qed
qed

lemma generateKeys_slugMake_runKeys:
  "runKeys (map (\<lambda>x. Inr (candidateKey_slugMake L x)) xs) kc = Inr (generateKeys_slugMake L xs kc)"
proof (induction xs arbitrary: kc)
  case Nil
  show ?case by simp
next
  case (Cons x xs)
  obtain p b t n where x: "x = (p, b, t, n)" by (cases x) auto
  show ?case
    unfolding x
    by (simp add: generateKey_slugMake_candidate Cons.IH Let_def case_prod_beta fun_upd_def)
qed

lemma occurrence_0: "occurrence (c # cs) 0 = 1"
  by (simp add: occurrence_def)

lemma occurrence_Suc:
  "occurrence (c # cs) (Suc i) = occurrence cs i + (if c = cs ! i then 1 else 0)"
  by (simp add: occurrence_def)

lemma occurrence_pos: "i < length cs \<Longrightarrow> 0 < occurrence cs i"
proof -
  assume "i < length cs"
  then have "cs ! i \<in> set (take (Suc i) cs)"
    by (metis in_set_conv_nth length_take lessI min_less_iff_conj nth_take)
  then show ?thesis
    using count_list_0_iff [of "take (Suc i) cs" "cs ! i"] by (simp add: occurrence_def)
qed

text \<open>From any counter: the \<open>i\<close>-th key is numbered by the stored count of its candidate
  plus its occurrences so far, and the counter ends with every count added.\<close>

lemma runKeys_numbered:
  "runKeys (map Inr cs) kc =
     Inr (map (\<lambda>i. numberKey (cs ! i) (kc (cs ! i) + int (occurrence cs i))) [0..<length cs],
          \<lambda>k. kc k + int (count_list cs k))"
proof (induction cs arbitrary: kc)
  case Nil
  show ?case by simp
next
  case (Cons c cs')
  let ?kc = "kc(c := kc c + 1)"
  let ?F = "\<lambda>i. numberKey ((c # cs') ! i) (kc ((c # cs') ! i) + int (occurrence (c # cs') i))"
  let ?G = "\<lambda>i. numberKey (cs' ! i) (?kc (cs' ! i) + int (occurrence cs' i))"
  have tail: "map ?G [0..<length cs'] = map (\<lambda>i. ?F (Suc i)) [0..<length cs']"
    by (rule map_cong) (auto simp: occurrence_Suc algebra_simps)
  have head: "?F 0 = numberKey c (kc c + 1)"
    by (simp add: occurrence_0)
  have "map ?F [0..<length (c # cs')] = ?F 0 # map (\<lambda>i. ?F (Suc i)) [0..<length cs']"
    by (simp add: map_upt_Suc del: upt_Suc)
  then have keys: "map ?F [0..<length (c # cs')] = numberKey c (kc c + 1) # map ?G [0..<length cs']"
    by (simp only: head tail)
  have cnt: "(\<lambda>k. ?kc k + int (count_list cs' k)) = (\<lambda>k. kc k + int (count_list (c # cs') k))"
    by (rule ext) simp
  have "runKeys (map Inr (c # cs')) kc =
          Inr (numberKey c (kc c + 1) # map ?G [0..<length cs'],
               \<lambda>k. ?kc k + int (count_list cs' k))"
    by (simp add: Cons.IH)
  then show ?case
    unfolding keys cnt .
qed

lemma numberKey_fresh:
  "0 < n \<Longrightarrow> numberKey c (int n) = (if n = 1 then c else c @ ''-'' @ digits n)"
  by (auto simp: numberKey_def Sprintf_d_def)

lemma runKeys_fresh:
  "runKeys (map Inr cs) fresh = Inr (suffixed cs, \<lambda>k. int (count_list cs k))"
proof -
  have "map (\<lambda>i. numberKey (cs ! i) (fresh (cs ! i) + int (occurrence cs i))) [0..<length cs]
        = suffixed cs"
    unfolding suffixed_def
    by (rule map_cong) (auto simp: fresh_def numberKey_fresh occurrence_pos)
  then show ?thesis
    using runKeys_numbered [of cs fresh] by (simp add: fresh_def)
qed

text \<open>The keys depend on the counter only through the counts of the candidates.\<close>

lemma runKeys_agree:
  "(\<forall>k. Inr k \<in> set rs \<longrightarrow> kc1 k = kc2 k) \<Longrightarrow>
   map_sum id fst (runKeys rs kc1) = map_sum id fst (runKeys rs kc2)"
proof (induction rs kc1 arbitrary: kc2 rule: runKeys.induct)
  case (1 kc)
  show ?case by simp
next
  case (2 e rs kc)
  show ?case by simp
next
  case (3 c rs kc)
  have eq: "kc c = kc2 c" using "3.prems" by simp
  have "\<forall>k. Inr k \<in> set rs \<longrightarrow> (kc(c := kc c + 1)) k = (kc2(c := kc2 c + 1)) k"
    using "3.prems" eq by simp
  then have IH: "map_sum id fst (runKeys rs (kc(c := kc c + 1))) =
                 map_sum id fst (runKeys rs (kc2(c := kc2 c + 1)))"
    by (rule "3.IH")
  have step: "\<And>k. map_sum id fst (runKeys (Inr c # rs) k) =
      (case map_sum id fst (runKeys rs (k(c := k c + 1))) of
         Inl e \<Rightarrow> Inl e | Inr ks \<Rightarrow> Inr (numberKey c (k c + 1) # ks))"
    by (simp split: sum.splits prod.splits)
  show ?case
    unfolding step IH by (simp only: eq)
qed

text \<open>
  C7. Calls of one run, from the fresh counter: whenever the calls have the candidate
  keys \<open>cs\<close>, the returned keys are \<open>suffixed cs\<close>: the first call with a candidate gets
  the bare candidate, the second one the candidate with \<^verbatim>\<open>-2\<close>, the third with \<^verbatim>\<open>-3\<close>,
  in the order of the calls, whatever other candidates come in between; and the counter
  ends with the number of calls per candidate. Both definitions of \<^verbatim>\<open>generateKey\<close> do so.
\<close>

theorem generateKey_numbers_occurrences:
  "(map (candidateKey L) xs = map Inr cs \<longrightarrow>
      generateKeys L xs fresh = Inr (suffixed cs, \<lambda>k. int (count_list cs k)))
   \<and> generateKeys_slugMake L xs fresh =
       (suffixed (map (candidateKey_slugMake L) xs),
        \<lambda>k. int (count_list (map (candidateKey_slugMake L) xs) k))"
proof (intro conjI impI)
  assume "map (candidateKey L) xs = map Inr cs"
  then show "generateKeys L xs fresh = Inr (suffixed cs, \<lambda>k. int (count_list cs k))"
    by (simp add: generateKeys_runKeys runKeys_fresh)
next
  let ?cs = "map (candidateKey_slugMake L) xs"
  have eq: "map (\<lambda>x. Inr (candidateKey_slugMake L x)) xs = map Inr ?cs"
    by (simp add: comp_def)
  have "runKeys (map Inr ?cs) fresh = Inr (generateKeys_slugMake L xs fresh)"
    using generateKeys_slugMake_runKeys [of L xs fresh] unfolding eq .
  then have "Inr (generateKeys_slugMake L xs fresh) = runKeys (map Inr ?cs) fresh"
    by (rule sym)
  then show "generateKeys_slugMake L xs fresh = (suffixed ?cs, \<lambda>k. int (count_list ?cs k))"
    by (simp only: runKeys_fresh sum.inject)
qed

theorem generateKey_numbers_occurrences_witness:
  "map_sum id fst
     (generateKeys golib_ascii
        [(''/src/a.vue'', ''/src'', ''Save'', 30), (''/src/b.vue'', ''/src'', ''Save'', 30),
         (''/src/a.vue'', ''/src'', ''save!'', 30), (''/src/a.vue'', ''/src'', ''SAVE'', 30)] fresh)
   = Inr [''a.save'', ''b.save'', ''a.save-2'', ''a.save-3'']"
proof -
  let ?xs = "[(''/src/a.vue'', ''/src'', ''Save'', 30), (''/src/b.vue'', ''/src'', ''Save'', 30),
             (''/src/a.vue'', ''/src'', ''save!'', 30), (''/src/a.vue'', ''/src'', ''SAVE'', (30::int))]"
  let ?cs = "[''a.save'', ''b.save'', ''a.save'', ''a.save'']"
  have h: "map (candidateKey golib_ascii) ?xs = map Inr ?cs"
    by code_simp
  have s: "suffixed ?cs = [''a.save'', ''b.save'', ''a.save-2'', ''a.save-3'']"
    by code_simp
  have "generateKeys golib_ascii ?xs fresh = Inr (suffixed ?cs, \<lambda>k. int (count_list ?cs k))"
    using generateKey_numbers_occurrences [of golib_ascii ?xs ?cs] h by blast
  then show ?thesis
    by (simp only: s map_sum.simps fst_conv id_apply)
qed

text \<open>
  C9. The keys of a run are a function of the inputs of its calls and of the counts the
  counter holds for their candidate keys, and of nothing else: two runs over the same
  inputs whose counters agree on the candidates (two fresh counters do) return the same
  keys, or end in the same panic. Both definitions of \<^verbatim>\<open>generateKey\<close> do so.
\<close>

theorem generateKey_deterministic:
  "((\<forall>x\<in>set xs. \<forall>k. candidateKey L x = Inr k \<longrightarrow> kc1 k = kc2 k) \<longrightarrow>
      map_sum id fst (generateKeys L xs kc1) = map_sum id fst (generateKeys L xs kc2))
   \<and> ((\<forall>x\<in>set xs. kc1 (candidateKey_slugMake L x) = kc2 (candidateKey_slugMake L x)) \<longrightarrow>
      fst (generateKeys_slugMake L xs kc1) = fst (generateKeys_slugMake L xs kc2))"
proof (intro conjI impI)
  assume "\<forall>x\<in>set xs. \<forall>k. candidateKey L x = Inr k \<longrightarrow> kc1 k = kc2 k"
  then have "\<forall>k. Inr k \<in> set (map (candidateKey L) xs) \<longrightarrow> kc1 k = kc2 k"
    by auto
  then show "map_sum id fst (generateKeys L xs kc1) = map_sum id fst (generateKeys L xs kc2)"
    unfolding generateKeys_runKeys by (rule runKeys_agree)
next
  let ?rs = "map (\<lambda>x. Inr (candidateKey_slugMake L x)) xs"
  assume "\<forall>x\<in>set xs. kc1 (candidateKey_slugMake L x) = kc2 (candidateKey_slugMake L x)"
  then have "\<forall>k. Inr k \<in> set ?rs \<longrightarrow> kc1 k = kc2 k"
    by auto
  then have "map_sum id fst (runKeys ?rs kc1) = map_sum id fst (runKeys ?rs kc2)"
    by (rule runKeys_agree)
  then show "fst (generateKeys_slugMake L xs kc1) = fst (generateKeys_slugMake L xs kc2)"
    by (simp add: generateKeys_slugMake_runKeys)
qed

theorem generateKey_deterministic_witness:
  "map_sum id fst
     (generateKeys golib_ascii
        [(''/src/a.vue'', ''/src'', ''Save'', 30), (''/src/a.vue'', ''/src'', ''Save'', 30)] fresh)
   = map_sum id fst
     (generateKeys golib_ascii
        [(''/src/a.vue'', ''/src'', ''Save'', 30), (''/src/a.vue'', ''/src'', ''Save'', 30)]
        (fresh(''b.cancel'' := 4)))"
proof -
  let ?xs = "[(''/src/a.vue'', ''/src'', ''Save'', 30), (''/src/a.vue'', ''/src'', ''Save'', (30::int))]"
  have c: "candidateKey golib_ascii (''/src/a.vue'', ''/src'', ''Save'', 30) = Inr ''a.save''"
    by code_simp
  have "\<forall>x\<in>set ?xs. \<forall>k. candidateKey golib_ascii x = Inr k \<longrightarrow>
          fresh k = (fresh(''b.cancel'' := 4)) k"
    by (simp add: c del: candidateKey.simps)
  then show ?thesis
    using generateKey_deterministic [of ?xs golib_ascii fresh "fresh(''b.cancel'' := 4)"]
    by blast
qed

text \<open>
  C1. The keys returned by the calls of one run are pairwise distinct. The code does not
  achieve this: the number appended to a repeated candidate can make it equal to another
  candidate. In the file \<^verbatim>\<open>/src/a.vue\<close> the texts \<^verbatim>\<open>Step\<close>, \<^verbatim>\<open>Step\<close>, \<^verbatim>\<open>Step 2\<close> get the keys
  \<^verbatim>\<open>a.step\<close>, \<^verbatim>\<open>a.step-2\<close>, \<^verbatim>\<open>a.step-2\<close>: the second \<^verbatim>\<open>Step\<close> is numbered \<^verbatim>\<open>a.step-2\<close>,
  which is also the bare candidate key of \<^verbatim>\<open>Step 2\<close>.
\<close>

theorem generateKey_collision:
  "map_sum id fst
     (generateKeys golib_ascii
        [(''/src/a.vue'', ''/src'', ''Step'', 30), (''/src/a.vue'', ''/src'', ''Step'', 30),
         (''/src/a.vue'', ''/src'', ''Step 2'', 30)] fresh)
   = Inr [''a.step'', ''a.step-2'', ''a.step-2'']"
  by code_simp

section \<open>The path stem\<close>

text \<open>\<^verbatim>\<open>generateKey\<close> of line 659 takes the stem from the relative path when
  \<^verbatim>\<open>filepath.Rel\<close> gives one and from the raw path otherwise.\<close>

lemma generateKey_stem:
  "slugify L text maxSlug = Inr slug \<Longrightarrow>
   filepath_Rel L basePath filePath = r \<Longrightarrow>
   keyCounter (pathStem L filePath basePath @ ''.'' @ slug) = 0 \<Longrightarrow>
   map_sum id fst (generateKey L filePath basePath text maxSlug keyCounter) =
     Inr (ReplaceAll
            (strings_ToLower L (TrimSuffix (case r of None \<Rightarrow> filePath | Some p \<Rightarrow> p) ''.vue''))
            (filepath_Separator L) ''.'' @ ''.'' @ slug)"
  by (simp add: generateKey_candidate numberKey_def pathStem_def)

text \<open>\<^verbatim>\<open>generateKey\<close> of line 73 never uses what \<^verbatim>\<open>filepath.Rel\<close> returned.\<close>

lemma generateKey_slugMake_ignores_Rel:
  "generateKey_slugMake (L\<lparr>filepath_Rel := rel\<rparr>) path basepath text maxslug kc =
   generateKey_slugMake L path basepath text maxslug kc"
  by (simp add: generateKey_slugMake_def)

text \<open>
  C4. The path stem comes from the path relative to the base whenever that is computable.
  \<^verbatim>\<open>generateKey\<close> of line 73 does not do this: for \<^verbatim>\<open>/src/sub/Page.vue\<close> under the base
  \<^verbatim>\<open>/src\<close> the relative path \<^verbatim>\<open>sub/Page.vue\<close> is computed, and the key is built from the
  whole path; \<^verbatim>\<open>generateKey\<close> of line 659 builds it from the relative path.
\<close>

theorem generateKey_slugMake_raw_path:
  "filepath_Rel golib_ascii ''/src'' ''/src/sub/Page.vue'' = Some ''sub/Page.vue''
   \<and> fst (generateKey_slugMake golib_ascii ''/src/sub/Page.vue'' ''/src'' ''hello'' 30 fresh)
       = ''.src.sub.page.hello''
   \<and> map_sum id fst (generateKey golib_ascii ''/src/sub/Page.vue'' ''/src'' ''hello'' 30 fresh)
       = Inr ''sub.page.hello''"
  by code_simp

section \<open>Rewriting\<close>

lemma cap_nonneg:
  fixes s e :: "64 word"
  assumes "unat s \<le> unat e" "unat e \<le> n"
  shows "0 \<le> int n - sint (e - s) + int k"
proof -
  have "s \<le> e" using assms(1) by (simp add: word_le_nat_alt)
  then have "unat (e - s) = unat e - unat s" by (rule unat_sub)
  moreover have "- (2 ^ (LENGTH(64) - Suc 0)) \<le> uint (e - s)"
    by (rule order_trans [where y = 0]) simp_all
  then have "sint (e - s) \<le> uint (e - s)"
    by (simp only: sint_uint signed_take_bit_int_less_eq_self_iff)
  ultimately have "sint (e - s) \<le> int n" using assms(2) by (simp add: uint_nat)
  then show ?thesis by simp
qed

lemma replaceInFile_rewrite:
  "slices_in_bounds (elems content) ms \<Longrightarrow>
   map_sum id elems (replaceInFile content ms) = Inr (rewrite (elems content) ms)"
proof (induction ms arbitrary: content)
  case Nil
  show ?case by (simp add: rewrite_def)
next
  case (Cons m ms)
  let ?r = "''{{ $t('' @ [CHR 0x27] @ Key m @ [CHR 0x27] @ '') }}''"
  let ?n = "int (length (elems content)) - sint (EndByte m - StartByte m) + int (length ?r)"
  from Cons.prems have b: "unat (StartByte m) \<le> unat (EndByte m)"
      "unat (EndByte m) \<le> length (elems content)"
    and rest: "slices_in_bounds (rewrite_step (elems content) m) ms"
    by (simp_all add: startOffset_def endOffset_def)
  have n: "\<not> ?n < 0" using cap_nonneg [OF b, of "length ?r"] by simp
  let ?new = "take (unat (StartByte m)) (elems content @ spare content) @ ?r
                @ drop (unat (EndByte m)) (elems content)"
  have new: "?new = rewrite_step (elems content) m"
    using b by (simp add: rewrite_step_def formatReplacement_def startOffset_def endOffset_def)
  let ?c = "\<lparr>elems = ?new, spare = replicate (nat ?n - length ?new) (CHR 0x00)\<rparr>"
  have "replaceInFile content (m # ms) = replaceInFile ?c ms"
    using n b by (simp add: Let_def del: replaceInFile.simps(1))
  moreover have "slices_in_bounds (elems ?c) ms" using rest new by simp
  ultimately show ?case
    using Cons.IH [of ?c] new by (simp add: rewrite_def del: replaceInFile.simps)
qed

lemma length_rewrite_step:
  "startOffset m \<le> endOffset m \<Longrightarrow> endOffset m \<le> length c \<Longrightarrow>
   length (rewrite_step c m) =
     startOffset m + length (formatReplacement (Key m)) + (length c - endOffset m)"
  by (simp add: rewrite_step_def)

text \<open>Bounds alone: spans in descending order that do not overlap and lie in the buffer
  stay in the buffer after every replacement.\<close>

lemma slices_in_bounds_if:
  "descending ms \<Longrightarrow> non_overlapping ms \<Longrightarrow>
   \<forall>m\<in>set ms. startOffset m \<le> endOffset m \<and> endOffset m \<le> length c \<Longrightarrow>
   slices_in_bounds c ms"
proof (induction ms arbitrary: c)
  case Nil
  show ?case by simp
next
  case (Cons m ms)
  have m: "startOffset m \<le> endOffset m" "endOffset m \<le> length c"
    using Cons.prems(3) by simp_all
  have len: "length (rewrite_step c m) =
      startOffset m + length (formatReplacement (Key m)) + (length c - endOffset m)"
    using m by (rule length_rewrite_step)
  have "\<forall>m'\<in>set ms. startOffset m' \<le> endOffset m' \<and> endOffset m' \<le> length (rewrite_step c m)"
  proof
    fix m' assume in_ms: "m' \<in> set ms"
    have le: "startOffset m' \<le> startOffset m"
      using Cons.prems(1) in_ms by (simp add: descending_def)
    have dis: "endOffset m \<le> startOffset m' \<or> endOffset m' \<le> startOffset m"
      using Cons.prems(2) in_ms by (simp add: non_overlapping_def)
    have m': "startOffset m' \<le> endOffset m'" "endOffset m' \<le> length c"
      using Cons.prems(3) in_ms by simp_all
    have "endOffset m' \<le> length (rewrite_step c m)"
      using dis le m m' unfolding len by linarith
    then show "startOffset m' \<le> endOffset m' \<and> endOffset m' \<le> length (rewrite_step c m)"
      using m' by simp
  qed
  moreover have "descending ms" "non_overlapping ms"
    using Cons.prems(1,2) by (simp_all add: descending_def non_overlapping_def)
  ultimately have "slices_in_bounds (rewrite_step c m) ms"
    by (intro Cons.IH)
  then show ?case using m by simp
qed

lemma stacked_mono: "stacked n ms \<Longrightarrow> n \<le> n' \<Longrightarrow> stacked n' ms"
  by (cases ms) auto

text \<open>Non-empty spans in descending order that do not overlap are stacked: each one ends
  where the one before it in the list starts, or earlier.\<close>

lemma stacked_if:
  "descending ms \<Longrightarrow> non_overlapping ms \<Longrightarrow>
   \<forall>m\<in>set ms. startOffset m < endOffset m \<and> endOffset m \<le> n \<Longrightarrow>
   stacked n ms"
proof (induction ms arbitrary: n)
  case Nil
  show ?case by simp
next
  case (Cons m ms)
  have m: "startOffset m < endOffset m" "endOffset m \<le> n"
    using Cons.prems(3) by simp_all
  have "\<forall>m'\<in>set ms. startOffset m' < endOffset m' \<and> endOffset m' \<le> startOffset m"
  proof
    fix m' assume in_ms: "m' \<in> set ms"
    have "startOffset m' \<le> startOffset m"
      using Cons.prems(1) in_ms by (simp add: descending_def)
    moreover have "endOffset m \<le> startOffset m' \<or> endOffset m' \<le> startOffset m"
      using Cons.prems(2) in_ms by (simp add: non_overlapping_def)
    moreover have "startOffset m' < endOffset m'"
      using Cons.prems(3) in_ms by simp
    ultimately show "startOffset m' < endOffset m' \<and> endOffset m' \<le> startOffset m"
      using m by linarith
  qed
  moreover have "descending ms" "non_overlapping ms"
    using Cons.prems(1,2) by (simp_all add: descending_def non_overlapping_def)
  ultimately have "stacked (startOffset m) ms"
    by (intro Cons.IH)
  then show ?case using m by simp
qed

text \<open>Rewriting stacked spans inside a prefix leaves what follows the prefix alone.\<close>

lemma rewrite_prefix:
  "stacked (length a) ms \<Longrightarrow> rewrite (a @ b) ms = rewrite a ms @ b"
proof (induction ms arbitrary: a)
  case Nil
  show ?case by (simp add: rewrite_def)
next
  case (Cons m ms)
  have m: "startOffset m \<le> endOffset m" "endOffset m \<le> length a"
    and rest: "stacked (startOffset m) ms"
    using Cons.prems by simp_all
  have step: "rewrite_step (a @ b) m = rewrite_step a m @ b"
    using m by (simp add: rewrite_step_def)
  have "startOffset m \<le> length (rewrite_step a m)"
    using m by (simp add: rewrite_step_def)
  then have "stacked (length (rewrite_step a m)) ms"
    using rest by (rule stacked_mono [rotated])
  then have "rewrite (rewrite_step a m @ b) ms = rewrite (rewrite_step a m) ms @ b"
    by (rule Cons.IH)
  then show ?case
    by (simp add: rewrite_def step)
qed

lemma rewrite_Cons:
  assumes "stacked (length c) (m # ms)"
  shows "rewrite c (m # ms) =
           rewrite (take (startOffset m) c) ms @ formatReplacement (Key m) @ drop (endOffset m) c"
proof -
  have m: "startOffset m \<le> endOffset m" "endOffset m \<le> length c"
    and rest: "stacked (startOffset m) ms"
    using assms by simp_all
  have "length (take (startOffset m) c) = startOffset m"
    using m by simp
  then have "stacked (length (take (startOffset m) c)) ms"
    using rest by simp
  then have "rewrite (take (startOffset m) c @ (formatReplacement (Key m) @ drop (endOffset m) c)) ms
      = rewrite (take (startOffset m) c) ms @ (formatReplacement (Key m) @ drop (endOffset m) c)"
    by (rule rewrite_prefix)
  then show ?thesis
    by (simp add: rewrite_def rewrite_step_def)
qed

lemma pieces_snoc:
  "\<forall>a\<in>set asc. startOffset a \<le> startOffset m \<Longrightarrow>
   pieces (take (startOffset m) c) p asc @ formatReplacement (Key m) @ drop (endOffset m) c
     = pieces c p (asc @ [m])"
proof (induction asc arbitrary: p)
  case Nil
  then show ?case by (simp add: drop_take)
next
  case (Cons a asc)
  have a: "startOffset a \<le> startOffset m" using Cons.prems by simp
  have "take (startOffset a - p) (drop p (take (startOffset m) c))
          = take (startOffset a - p) (drop p c)"
    using a by (simp add: drop_take min_def)
  moreover have "pieces (take (startOffset m) c) (endOffset a) asc
        @ formatReplacement (Key m) @ drop (endOffset m) c
      = pieces c (endOffset a) (asc @ [m])"
    using Cons.prems by (intro Cons.IH) simp
  ultimately show ?case by simp
qed

lemma stacked_bound:
  "stacked n ms \<Longrightarrow> \<forall>a\<in>set ms. startOffset a \<le> n \<and> endOffset a \<le> n"
proof (induction ms arbitrary: n)
  case Nil
  show ?case by simp
next
  case (Cons m ms)
  have m: "startOffset m \<le> endOffset m" "endOffset m \<le> n"
    and rest: "stacked (startOffset m) ms"
    using Cons.prems by simp_all
  have "\<forall>a\<in>set ms. startOffset a \<le> startOffset m \<and> endOffset a \<le> startOffset m"
    using rest by (rule Cons.IH)
  then show ?case using m by fastforce
qed

text \<open>The result of rewriting stacked spans, read from the left: the stretch of the input
  before the lowest span, its replacement, the stretch up to the next span, and so on to
  the stretch after the highest span.\<close>

lemma rewrite_pieces:
  "stacked (length c) ms \<Longrightarrow> rewrite c ms = pieces c 0 (rev ms)"
proof (induction ms arbitrary: c)
  case Nil
  show ?case by (simp add: rewrite_def)
next
  case (Cons m ms)
  have m: "startOffset m \<le> endOffset m" "endOffset m \<le> length c"
    and rest: "stacked (startOffset m) ms"
    using Cons.prems by simp_all
  have "stacked (length (take (startOffset m) c)) ms"
    using rest m by simp
  then have IH: "rewrite (take (startOffset m) c) ms = pieces (take (startOffset m) c) 0 (rev ms)"
    by (rule Cons.IH)
  have "\<forall>a\<in>set (rev ms). startOffset a \<le> startOffset m"
    using stacked_bound [OF rest] by simp
  then have "pieces (take (startOffset m) c) 0 (rev ms)
        @ formatReplacement (Key m) @ drop (endOffset m) c
      = pieces c 0 (rev ms @ [m])"
    by (rule pieces_snoc)
  then show ?case
    using rewrite_Cons [OF Cons.prems] IH by simp
qed

text \<open>Positions: a byte outside the spans is found again, moved by the growth of the
  replacements before it.\<close>

lemma length_rewrite:
  "stacked (length a) ms \<Longrightarrow>
   int (length (rewrite a ms)) = int (length a) + sum_list (map growth ms)"
proof (induction ms arbitrary: a)
  case Nil
  show ?case by (simp add: rewrite_def)
next
  case (Cons m ms)
  have m: "startOffset m \<le> endOffset m" "endOffset m \<le> length a"
    and rest: "stacked (startOffset m) ms"
    using Cons.prems by simp_all
  have len: "int (length (rewrite_step a m)) = int (length a) + growth m"
    using m by (simp add: length_rewrite_step growth_def)
  have "startOffset m \<le> length (rewrite_step a m)"
    using m by (simp add: length_rewrite_step)
  then have "stacked (length (rewrite_step a m)) ms"
    using rest by (rule stacked_mono [rotated])
  then have "int (length (rewrite (rewrite_step a m) ms))
      = int (length (rewrite_step a m)) + sum_list (map growth ms)"
    by (rule Cons.IH)
  then show ?case
    using len by (simp add: rewrite_def)
qed

lemma shift_all:
  "\<forall>m\<in>set ms. endOffset m \<le> i \<Longrightarrow> shift ms i = sum_list (map growth ms)"
  unfolding shift_def by (induction ms) simp_all

lemma rewrite_nth:
  "stacked (length c) ms \<Longrightarrow> i < length c \<Longrightarrow> outside ms i \<Longrightarrow>
   0 \<le> int i + shift ms i
   \<and> nat (int i + shift ms i) < length (rewrite c ms)
   \<and> rewrite c ms ! nat (int i + shift ms i) = c ! i"
proof (induction ms arbitrary: c i)
  case Nil
  then show ?case by (simp add: rewrite_def shift_def)
next
  case (Cons m ms)
  let ?s = "startOffset m" and ?e = "endOffset m"
  let ?r = "formatReplacement (Key m)"
  let ?P = "rewrite (take ?s c) ms"
  have m: "?s \<le> ?e" "?e \<le> length c" and rest: "stacked ?s ms"
    using Cons.prems(1) by simp_all
  have out: "i < ?s \<or> ?e \<le> i" and out': "outside ms i"
    using Cons.prems(3) by (simp_all add: outside_def)
  have st: "stacked (length (take ?s c)) ms"
    using rest m by simp
  have eq: "rewrite c (m # ms) = ?P @ ?r @ drop ?e c"
    using Cons.prems(1) by (rule rewrite_Cons)
  have lenP: "int (length ?P) = int ?s + sum_list (map growth ms)"
    using length_rewrite [OF st] m by simp
  show ?case
  proof (cases "i < ?s")
    case True
    have sh: "shift (m # ms) i = shift ms i"
      using True m by (simp add: shift_def)
    have "i < length (take ?s c)" using True m by simp
    from Cons.IH [OF st this out']
    have ih: "0 \<le> int i + shift ms i" "nat (int i + shift ms i) < length ?P"
      "?P ! nat (int i + shift ms i) = take ?s c ! i"
      by simp_all
    have "(?P @ ?r @ drop ?e c) ! nat (int i + shift ms i) = c ! i"
      using ih True by (simp add: nth_append)
    then show ?thesis
      unfolding eq sh using ih(1,2) by simp
  next
    case False
    with out have ei: "?e \<le> i" by simp
    have "\<forall>a\<in>set ms. endOffset a \<le> i"
      using stacked_bound [OF rest] m ei by fastforce
    then have "shift ms i = sum_list (map growth ms)"
      by (rule shift_all)
    then have sh: "shift (m # ms) i = growth m + sum_list (map growth ms)"
      using ei by (simp add: shift_def)
    have idx: "int i + shift (m # ms) i = int (length ?P) + int (length ?r) + int (i - ?e)"
      unfolding sh lenP growth_def using ei m by simp
    then have n: "nat (int i + shift (m # ms) i) = length ?P + length ?r + (i - ?e)"
      by simp
    have "(?P @ (?r @ drop ?e c)) ! (length ?P + (length ?r + (i - ?e)))
        = (?r @ drop ?e c) ! (length ?r + (i - ?e))"
      by (rule nth_append_length_plus)
    also have "\<dots> = drop ?e c ! (i - ?e)"
      by (rule nth_append_length_plus)
    also have "\<dots> = c ! i"
      using ei m by simp
    finally have "(?P @ ?r @ drop ?e c) ! (length ?P + length ?r + (i - ?e)) = c ! i"
      by (simp only: add.assoc)
    moreover have "length ?P + length ?r + (i - ?e) < length (?P @ ?r @ drop ?e c)"
      using ei Cons.prems(2) by simp
    ultimately show ?thesis
      unfolding eq n using idx by simp
  qed
qed

text \<open>
  A Go slice is shorter than \<open>2^63\<close> bytes. Then the capacity asked of \<^verbatim>\<open>make\<close> is exactly
  the length of the new buffer: the appends never reallocate, and the buffer of every
  round after the first has no spare capacity.
\<close>

lemma sint_diff_exact:
  fixes s e :: "64 word"
  assumes "uint e < 2 ^ 63" "uint s < 2 ^ 63"
  shows "sint (e - s) = uint e - uint s"
proof -
  have "uint (e - s) = take_bit 64 (uint e - uint s)"
    by (simp only: uint_word_ariths take_bit_eq_mod len_of_numeral_defs) simp
  then have "sint (e - s) = signed_take_bit 63 (uint e - uint s)"
    by (simp add: sint_uint signed_take_bit_take_bit)
  moreover have "0 \<le> uint e" "0 \<le> uint s"
    by simp_all
  then have "- (2 ^ 63) \<le> uint e - uint s" "uint e - uint s < 2 ^ 63"
    using assms by linarith+
  ultimately show ?thesis
    by (simp only: signed_take_bit_int_eq_self)
qed

lemma newContent_fills_capacity:
  assumes e: "unat (EndByte m) \<le> length (elems c)"
    and s: "unat (StartByte m) \<le> length (elems c) + length (spare c)"
    and small: "int (length (elems c)) + int (length (spare c)) < 2 ^ 63"
  shows "int (length (elems c)) - sint (EndByte m - StartByte m) + int (length r) =
         int (length (take (unat (StartByte m)) (elems c @ spare c) @ r
                        @ drop (unat (EndByte m)) (elems c)))"
proof -
  have ue: "uint (EndByte m) = int (unat (EndByte m))"
    and us: "uint (StartByte m) = int (unat (StartByte m))"
    by (simp_all only: uint_nat)
  have "uint (EndByte m) < 2 ^ 63" "uint (StartByte m) < 2 ^ 63"
    using e s small unfolding ue us by linarith+
  then have d: "sint (EndByte m - StartByte m) = int (unat (EndByte m)) - int (unat (StartByte m))"
    unfolding ue [symmetric] us [symmetric] by (rule sint_diff_exact)
  have "length (take (unat (StartByte m)) (elems c @ spare c) @ r @ drop (unat (EndByte m)) (elems c))
      = unat (StartByte m) + length r + (length (elems c) - unat (EndByte m))"
    using s by simp
  then show ?thesis
    unfolding d using e by linarith
qed

text \<open>
  C2. For a buffer and spans inside it, sorted by start offset in descending order and
  not overlapping, \<^verbatim>\<open>replaceInFile\<close> returns the buffer obtained by folding
  \<^verbatim>\<open>content[0:startOffset] + "{{ $t('" + key + "') }}" + content[endOffset:]\<close> over the
  spans; and when no span is empty (\<open>startOffset < endOffset\<close>, as the data model has it)
  that buffer consists of the bytes of the input outside the spans, unchanged and in
  their order, with each span's replacement in the span's place: every byte at a
  position outside all spans is found again, moved by the growth of the replacements
  before it, whatever their lengths. For \<^verbatim>\<open><p>Hello</p>\<close> with the span 3 to 8 and the
  key \<^verbatim>\<open>x.y\<close> the result is \<^verbatim>\<open><p>{{ $t('x.y') }}</p>\<close>.
\<close>

theorem replaceInFile_rewrites:
  "(descending ms \<and> non_overlapping ms
      \<and> (\<forall>m\<in>set ms. startOffset m \<le> endOffset m \<and> endOffset m \<le> length (elems content))
    \<longrightarrow> map_sum id elems (replaceInFile content ms) = Inr (rewrite (elems content) ms)
      \<and> ((\<forall>m\<in>set ms. startOffset m < endOffset m)
           \<longrightarrow> rewrite (elems content) ms = pieces (elems content) 0 (rev ms)
             \<and> (\<forall>i<length (elems content). outside ms i \<longrightarrow>
                   0 \<le> int i + shift ms i
                   \<and> nat (int i + shift ms i) < length (rewrite (elems content) ms)
                   \<and> rewrite (elems content) ms ! nat (int i + shift ms i)
                       = elems content ! i)))
   \<and> map_sum id elems
       (replaceInFile \<lparr>elems = ''<p>Hello</p>'', spare = sp\<rparr>
          [\<lparr>Line = l, File = f, Text = ''Hello'', StartByte = 3, EndByte = 8, Key = ''x.y''\<rparr>])
     = Inr (''<p>{{ $t('' @ [CHR 0x27] @ ''x.y'' @ [CHR 0x27] @ '') }}</p>'')"
proof (intro conjI impI allI)
  assume h: "descending ms \<and> non_overlapping ms
      \<and> (\<forall>m\<in>set ms. startOffset m \<le> endOffset m \<and> endOffset m \<le> length (elems content))"
  then have "slices_in_bounds (elems content) ms"
    by (intro slices_in_bounds_if) simp_all
  then show "map_sum id elems (replaceInFile content ms) = Inr (rewrite (elems content) ms)"
    by (rule replaceInFile_rewrite)
  assume "\<forall>m\<in>set ms. startOffset m < endOffset m"
  with h have st: "stacked (length (elems content)) ms"
    by (intro stacked_if) simp_all
  then show "rewrite (elems content) ms = pieces (elems content) 0 (rev ms)"
    by (rule rewrite_pieces)
  fix i
  assume "i < length (elems content)" and "outside ms i"
  with st have pos: "0 \<le> int i + shift ms i
      \<and> nat (int i + shift ms i) < length (rewrite (elems content) ms)
      \<and> rewrite (elems content) ms ! nat (int i + shift ms i) = elems content ! i"
    by (rule rewrite_nth)
  from pos show "0 \<le> int i + shift ms i" by simp
  from pos show "nat (int i + shift ms i) < length (rewrite (elems content) ms)" by simp
  from pos show "rewrite (elems content) ms ! nat (int i + shift ms i) = elems content ! i"
    by simp
next
  show "map_sum id elems
       (replaceInFile \<lparr>elems = ''<p>Hello</p>'', spare = sp\<rparr>
          [\<lparr>Line = l, File = f, Text = ''Hello'', StartByte = 3, EndByte = 8, Key = ''x.y''\<rparr>])
     = Inr (''<p>{{ $t('' @ [CHR 0x27] @ ''x.y'' @ [CHR 0x27] @ '') }}</p>'')"
    by (simp add: Let_def)
qed

theorem replaceInFile_rewrites_witness:
  "map_sum id elems
     (replaceInFile \<lparr>elems = ''<b>Hi</b><i>Goodbye, dear friends, see you next year</i>'', spare = ''zz''\<rparr>
        [\<lparr>Line = 1, File = ''a.vue'', Text = ''Goodbye, dear friends, see you next year'',
            StartByte = 12, EndByte = 52, Key = ''a.bye''\<rparr>,
         \<lparr>Line = 1, File = ''a.vue'', Text = ''Hi'', StartByte = 3, EndByte = 5, Key = ''a.hi''\<rparr>])
   = Inr (''<b>{{ $t('' @ [CHR 0x27] @ ''a.hi'' @ [CHR 0x27] @ '') }}</b><i>{{ $t(''
            @ [CHR 0x27] @ ''a.bye'' @ [CHR 0x27] @ '') }}</i>'')"
proof -
  let ?c = "\<lparr>elems = ''<b>Hi</b><i>Goodbye, dear friends, see you next year</i>'', spare = ''zz''\<rparr>"
  let ?ms = "[\<lparr>Line = 1, File = ''a.vue'', Text = ''Goodbye, dear friends, see you next year'',
                 StartByte = 12, EndByte = 52, Key = ''a.bye''\<rparr>,
              \<lparr>Line = 1, File = ''a.vue'', Text = ''Hi'', StartByte = 3, EndByte = 5, Key = ''a.hi''\<rparr>]"
  have h: "descending ?ms \<and> non_overlapping ?ms
      \<and> (\<forall>m\<in>set ?ms. startOffset m \<le> endOffset m \<and> endOffset m \<le> length (elems ?c))"
    by (simp add: descending_def non_overlapping_def startOffset_def endOffset_def)
  have ne: "\<forall>m\<in>set ?ms. startOffset m < endOffset m"
    by (simp add: startOffset_def endOffset_def)
  have p: "pieces (elems ?c) 0 (rev ?ms)
      = ''<b>{{ $t('' @ [CHR 0x27] @ ''a.hi'' @ [CHR 0x27] @ '') }}</b><i>{{ $t(''
            @ [CHR 0x27] @ ''a.bye'' @ [CHR 0x27] @ '') }}</i>''"
    by (simp add: formatReplacement_def startOffset_def endOffset_def)
  have "map_sum id elems (replaceInFile ?c ?ms) = Inr (rewrite (elems ?c) ?ms)
      \<and> rewrite (elems ?c) ?ms = pieces (elems ?c) 0 (rev ?ms)"
    using replaceInFile_rewrites [of ?ms ?c] h ne by blast
  then show ?thesis
    by (simp only: p)
qed

text \<open>
  C10. When the spans are in descending order of \<^verbatim>\<open>StartByte\<close>, do not overlap, have
  \<^verbatim>\<open>StartByte <= EndByte\<close> and end within the original content, every slice of every round
  lies within the length of the buffer of that round, and \<^verbatim>\<open>replaceInFile\<close> returns a
  buffer: no round panics.
\<close>

theorem replaceInFile_total:
  assumes "descending ms" and "non_overlapping ms"
    and "\<forall>m\<in>set ms. startOffset m \<le> endOffset m \<and> endOffset m \<le> length (elems content)"
  shows "slices_in_bounds (elems content) ms \<and> (\<exists>out. replaceInFile content ms = Inr out)"
proof -
  have b: "slices_in_bounds (elems content) ms"
    using assms by (rule slices_in_bounds_if)
  then have "map_sum id elems (replaceInFile content ms) = Inr (rewrite (elems content) ms)"
    by (rule replaceInFile_rewrite)
  then have "\<exists>out. replaceInFile content ms = Inr out"
    by (cases "replaceInFile content ms") simp_all
  with b show ?thesis by simp
qed

theorem replaceInFile_total_witness:
  "slices_in_bounds ''<b>Hi</b><i>Goodbye, dear friends, see you next year</i>''
     [\<lparr>Line = 1, File = ''a.vue'', Text = ''Goodbye, dear friends, see you next year'',
         StartByte = 12, EndByte = 52, Key = ''a.bye''\<rparr>,
      \<lparr>Line = 1, File = ''a.vue'', Text = '''', StartByte = 12, EndByte = 12, Key = ''a.''\<rparr>,
      \<lparr>Line = 1, File = ''a.vue'', Text = ''Hi'', StartByte = 3, EndByte = 5, Key = ''a.hi''\<rparr>]
   \<and> (\<exists>out. replaceInFile
         \<lparr>elems = ''<b>Hi</b><i>Goodbye, dear friends, see you next year</i>'', spare = []\<rparr>
         [\<lparr>Line = 1, File = ''a.vue'', Text = ''Goodbye, dear friends, see you next year'',
             StartByte = 12, EndByte = 52, Key = ''a.bye''\<rparr>,
          \<lparr>Line = 1, File = ''a.vue'', Text = '''', StartByte = 12, EndByte = 12, Key = ''a.''\<rparr>,
          \<lparr>Line = 1, File = ''a.vue'', Text = ''Hi'', StartByte = 3, EndByte = 5, Key = ''a.hi''\<rparr>]
       = Inr out)"
proof -
  let ?c = "\<lparr>elems = ''<b>Hi</b><i>Goodbye, dear friends, see you next year</i>'', spare = []\<rparr>"
  let ?ms = "[\<lparr>Line = 1, File = ''a.vue'', Text = ''Goodbye, dear friends, see you next year'',
                 StartByte = 12, EndByte = 52, Key = ''a.bye''\<rparr>,
              \<lparr>Line = 1, File = ''a.vue'', Text = '''', StartByte = 12, EndByte = 12, Key = ''a.''\<rparr>,
              \<lparr>Line = 1, File = ''a.vue'', Text = ''Hi'', StartByte = 3, EndByte = 5, Key = ''a.hi''\<rparr>]"
  have 1: "descending ?ms"
    by (simp add: descending_def startOffset_def)
  have 2: "non_overlapping ?ms"
    by (simp add: non_overlapping_def startOffset_def endOffset_def)
  have 3: "\<forall>m\<in>set ?ms. startOffset m \<le> endOffset m \<and> endOffset m \<le> length (elems ?c)"
    by (simp add: startOffset_def endOffset_def)
  show ?thesis
    using replaceInFile_total [OF 1 2 3] by simp
qed

section \<open>Merging the catalog\<close>

lemma map_of_mapassign: "map_of (mapassign m k v) = (map_of m)(k \<mapsto> v)"
  by (induction m k v rule: mapassign.induct) (auto simp: fun_upd_twist)

lemma keys_mapassign: "set (map fst (mapassign m k v)) = insert k (set (map fst m))"
  by (induction m k v rule: mapassign.induct) auto

lemma distinct_mapassign: "distinct (map fst m) \<Longrightarrow> distinct (map fst (mapassign m k v))"
proof (induction m k v rule: mapassign.induct)
  case (1 k v)
  show ?case by simp
next
  case (2 k' v' m k v)
  then show ?case using keys_mapassign [of m k v] by auto
qed

lemma mapassign_new: "k \<notin> set (map fst m) \<Longrightarrow> mapassign m k v = m @ [(k, v)]"
  by (induction m k v rule: mapassign.induct) auto

text \<open>What \<^verbatim>\<open>json.Unmarshal\<close> builds from the members of an object.\<close>

lemma unmarshal_members:
  "distinct (map fst m0) \<Longrightarrow>
   distinct (map fst (foldl (\<lambda>m (k, v). mapassign m k v) m0 members))
   \<and> map_of (foldl (\<lambda>m (k, v). mapassign m k v) m0 members) = map_of m0 ++ map_of (rev members)"
proof (induction members arbitrary: m0)
  case Nil
  then show ?case by simp
next
  case (Cons kv members)
  obtain k v where kv: "kv = (k, v)" by (cases kv) auto
  have d: "distinct (map fst (mapassign m0 k v))"
    using Cons.prems by (rule distinct_mapassign)
  have "map_of (mapassign m0 k v) ++ map_of (rev members)
      = map_of m0 ++ map_of (rev members @ [(k, v)])"
    by (rule ext) (simp add: map_of_mapassign map_add_def split: option.splits)
  then show ?case
    using Cons.IH [OF d] unfolding kv by simp
qed

text \<open>The loop over the new entries: an entry is stored only when its key is absent, so
  the entries already there win.\<close>

lemma merge_translations_Some:
  "\<exists>m'. merge_translations (Some m) ts = Inr (Some m')
        \<and> map_of m' = map_of ts ++ map_of m
        \<and> (distinct (map fst m) \<longrightarrow> distinct (map fst m'))"
proof (induction ts arbitrary: m)
  case Nil
  then show ?case by (simp add: maprange_def)
next
  case (Cons kv ts)
  obtain key val where kv: "kv = (key, val)" by (cases kv) auto
  show ?case
  proof (cases "map_of m key")
    case None
    from Cons.IH [of "mapassign m key val"] obtain m' where m':
      "merge_translations (Some (mapassign m key val)) ts = Inr (Some m')"
      "map_of m' = map_of ts ++ map_of (mapassign m key val)"
      "distinct (map fst (mapassign m key val)) \<longrightarrow> distinct (map fst m')"
      by blast
    have "map_of ts ++ map_of (mapassign m key val) = map_of ((key, val) # ts) ++ map_of m"
      using None by (intro ext) (simp add: map_of_mapassign map_add_def split: option.splits)
    then have eq: "map_of m' = map_of (kv # ts) ++ map_of m"
      unfolding kv by (simp only: m'(2))
    have "merge_translations (Some m) (kv # ts) = Inr (Some m')"
      using m'(1) None unfolding kv by (simp add: maprange_def)
    moreover have "distinct (map fst m) \<longrightarrow> distinct (map fst m')"
      using m'(3) distinct_mapassign [of m key val] by blast
    ultimately show ?thesis
      using eq by blast
  next
    case (Some old)
    from Cons.IH [of m] obtain m' where m':
      "merge_translations (Some m) ts = Inr (Some m')"
      "map_of m' = map_of ts ++ map_of m"
      "distinct (map fst m) \<longrightarrow> distinct (map fst m')"
      by blast
    have "map_of ts ++ map_of m = map_of ((key, val) # ts) ++ map_of m"
      using Some by (intro ext) (simp add: map_add_def split: option.splits)
    then have eq: "map_of m' = map_of (kv # ts) ++ map_of m"
      unfolding kv by (simp only: m'(2))
    have "merge_translations (Some m) (kv # ts) = Inr (Some m')"
      using m'(1) Some unfolding kv by (simp add: maprange_def)
    then show ?thesis
      using m'(3) eq by blast
  qed
qed

lemma merge_translations_nil:
  "merge_translations None ts = (if ts = [] then Inr None else Inl AssignToNilMap)"
  by (cases ts) (auto simp: maprange_def)

lemma ordered_entries:
  "distinct (map fst m0 @ keys) \<Longrightarrow>
   foldl (\<lambda>m k. mapassign m k (f k)) m0 keys = m0 @ map (\<lambda>k. (k, f k)) keys"
proof (induction keys arbitrary: m0)
  case Nil
  show ?case by simp
next
  case (Cons k keys)
  have new: "k \<notin> set (map fst m0)" using Cons.prems by auto
  then have step: "mapassign m0 k (f k) = m0 @ [(k, f k)]"
    by (rule mapassign_new)
  have "distinct (map fst (m0 @ [(k, f k)]) @ keys)"
    using Cons.prems by auto
  then show ?case
    using Cons.IH [of "m0 @ [(k, f k)]"] by (simp add: step)
qed

text \<open>From the merged map to the text written: the members in ascending order of their
  keys, each key once, with the values of the map.\<close>

lemma marshal_ordered:
  assumes "distinct (map fst m)"
  defines "keys \<equiv> sort (map fst m)"
  defines "ordered \<equiv> foldl (\<lambda>acc k. mapassign acc k (mapindex (Some m) k)) [] keys"
  shows "MarshalIndent L ordered = Inr (object_text L ordered)
         \<and> sorted (map fst ordered) \<and> distinct (map fst ordered) \<and> map_of ordered = map_of m"
proof -
  have dk: "distinct keys" and sk: "sorted keys" and setk: "set keys = set (map fst m)"
    using assms(1) by (simp_all add: keys_def)
  have ord: "ordered = map (\<lambda>k. (k, mapindex (Some m) k)) keys"
    unfolding ordered_def using ordered_entries [of "[]" keys] dk by simp
  have fst: "map fst ordered = keys"
    unfolding ord by (simp add: comp_def)
  have "map_of ordered k = map_of m k" for k
  proof (cases "k \<in> set keys")
    case True
    then obtain v where v: "map_of m k = Some v"
      using setk by (metis map_of_eq_None_iff not_Some_eq set_map)
    have "map_of ordered k = Some (mapindex (Some m) k)"
      unfolding ord using True by (simp add: map_of_map_restrict)
    then show ?thesis using v by (simp add: mapindex_def maprange_def)
  next
    case False
    then have "map_of m k = None" using setk by (simp add: map_of_eq_None_iff)
    moreover have "map_of ordered k = None"
      using False fst by (metis map_of_eq_None_iff set_map)
    ultimately show ?thesis by simp
  qed
  then have "map_of ordered = map_of m" by (rule ext)
  moreover have "sort_key fst ordered = ordered"
    using sk fst by (simp add: sort_key_id_if_sorted)
  ultimately show ?thesis
    using dk sk fst by (simp add: MarshalIndent_def)
qed

lemma writeLocaleFile_loaded:
  "writeLocaleFile L fs path translations =
     (case loaded_catalog L fs path of
        Inl e \<Rightarrow> Inr (Some e, fs)
      | Inr existing \<Rightarrow>
          (case merge_translations existing translations of
             Inl p \<Rightarrow> Inl p
           | Inr existing \<Rightarrow>
               let keys = sort (map fst (maprange existing));
                   ordered = foldl (\<lambda>m k. mapassign m k (mapindex existing k)) [] keys
               in case MarshalIndent L ordered of
                    Inl err \<Rightarrow> Inr (Some MarshalLocale, fs)
                  | Inr output \<Rightarrow>
                      (case WriteFile fs path output of
                         (Some err, fs') \<Rightarrow> Inr (Some WriteLocale, fs')
                       | (None, fs') \<Rightarrow> Inr (None, fs'))))"
  by (simp add: writeLocaleFile_def loaded_catalog_def)

lemma loaded_catalog_Some:
  assumes "loaded_catalog L fs path = Inr (Some m0)"
  shows "distinct (map fst m0) \<and> map_of m0 = existing_catalog L fs path"
proof (cases "ReadFile fs path")
  case (Inl err)
  then show ?thesis
    using assms by (simp add: loaded_catalog_def existing_catalog_def)
next
  case (Inr data)
  then obtain members where u: "json_Unmarshal L data = JSONObject members"
    and m0: "m0 = foldl (\<lambda>m (k, v). mapassign m k v) [] members"
    using assms by (auto simp: loaded_catalog_def split: unmarshalled.splits)
  have "distinct (map fst m0) \<and> map_of m0 = map_of [] ++ map_of (rev members)"
    unfolding m0 by (rule unmarshal_members) simp
  then show ?thesis
    using Inr u by (simp add: existing_catalog_def)
qed

lemma loaded_catalog_None:
  assumes "loaded_catalog L fs path = Inr None"
  shows "existing_catalog L fs path = Map.empty"
  using assms
  by (auto simp: loaded_catalog_def existing_catalog_def split: sum.splits unmarshalled.splits)

text \<open>After loading: either a panic on the nil map, or one write of the merged members in
  ascending key order.\<close>

lemma writeLocaleFile_writes:
  assumes "loaded_catalog L fs path = Inr existing"
  shows "writeLocaleFile L fs path ts = Inl AssignToNilMap \<and> existing = None \<and> ts \<noteq> []
       \<or> (\<exists>es. sorted (map fst es) \<and> distinct (map fst es)
              \<and> map_of es = map_of ts ++ existing_catalog L fs path
              \<and> writeLocaleFile L fs path ts =
                  (case WriteFile fs path (object_text L es) of
                     (Some err, fs') \<Rightarrow> Inr (Some WriteLocale, fs')
                   | (None, fs') \<Rightarrow> Inr (None, fs')))"
proof (cases existing)
  case None
  have empty: "existing_catalog L fs path = Map.empty"
    using assms None by (simp add: loaded_catalog_None)
  show ?thesis
  proof (cases "ts = []")
    case True
    have "writeLocaleFile L fs path ts =
            (case WriteFile fs path (object_text L []) of
               (Some err, fs') \<Rightarrow> Inr (Some WriteLocale, fs')
             | (None, fs') \<Rightarrow> Inr (None, fs'))"
      using assms None True
      by (simp add: writeLocaleFile_loaded maprange_def MarshalIndent_def)
    moreover have "map_of [] = map_of ts ++ existing_catalog L fs path"
      using True empty by simp
    ultimately show ?thesis
      by (intro disjI2 exI [of _ "[]"]) simp
  next
    case False
    then show ?thesis
      using assms None by (simp add: writeLocaleFile_loaded merge_translations_nil)
  qed
next
  case (Some m0)
  have m0: "distinct (map fst m0)" "map_of m0 = existing_catalog L fs path"
    using assms Some loaded_catalog_Some by blast+
  obtain m' where m': "merge_translations (Some m0) ts = Inr (Some m')"
    "map_of m' = map_of ts ++ map_of m0" "distinct (map fst m')"
    using merge_translations_Some [of m0 ts] m0(1) by blast
  let ?ordered = "foldl (\<lambda>acc k. mapassign acc k (mapindex (Some m') k)) [] (sort (map fst m'))"
  have o: "MarshalIndent L ?ordered = Inr (object_text L ?ordered)"
    "sorted (map fst ?ordered)" "distinct (map fst ?ordered)" "map_of ?ordered = map_of m'"
    using marshal_ordered [OF m'(3), of L] by simp_all
  have "writeLocaleFile L fs path ts =
          (case WriteFile fs path (object_text L ?ordered) of
             (Some err, fs') \<Rightarrow> Inr (Some WriteLocale, fs')
           | (None, fs') \<Rightarrow> Inr (None, fs'))"
    using assms Some m'(1) o(1)
    by (simp add: writeLocaleFile_loaded maprange_def Let_def)
  moreover have "map_of ?ordered = map_of ts ++ existing_catalog L fs path"
    using o(4) m'(2) m0(2) by simp
  ultimately show ?thesis
    using o(2,3) by blast
qed

lemma WriteFile_ok:
  "WriteFile fs path data = (None, fs') \<Longrightarrow> files fs' path = Some data"
  by (auto simp: WriteFile_def split: write_fault.splits)

lemma WriteFile_NoFault:
  "write_fault fs path = NoFault \<Longrightarrow>
   WriteFile fs path data = (None, fs\<lparr>files := (files fs)(path \<mapsto> data)\<rparr>)"
  by (simp add: WriteFile_def)

text \<open>A call that returns no error has written the merged catalog.\<close>

lemma writeLocaleFile_success:
  assumes "writeLocaleFile L fs path ts = Inr (None, fs')"
  shows "\<exists>es. files fs' path = Some (object_text L es)
             \<and> sorted (map fst es) \<and> distinct (map fst es)
             \<and> map_of es = map_of ts ++ existing_catalog L fs path"
proof (cases "loaded_catalog L fs path")
  case (Inl e)
  then show ?thesis using assms by (simp add: writeLocaleFile_loaded)
next
  case (Inr existing)
  from writeLocaleFile_writes [OF Inr, of ts] assms
  obtain es where es: "sorted (map fst es)" "distinct (map fst es)"
    "map_of es = map_of ts ++ existing_catalog L fs path"
    and w: "(case WriteFile fs path (object_text L es) of
               (Some err, fs') \<Rightarrow> Inr (Some WriteLocale, fs')
             | (None, fs') \<Rightarrow> Inr (None, fs')) = (Inr (None, fs') :: panic + _)"
    by auto
  have "WriteFile fs path (object_text L es) = (None, fs')"
    using w by (auto split: prod.splits option.splits)
  then have "files fs' path = Some (object_text L es)"
    by (rule WriteFile_ok)
  then show ?thesis using es by blast
qed

text \<open>
  C3. The merge stores a new entry only when its key is absent from the existing catalog:
  after the loop every key of the existing catalog has the value it had, and only the
  other keys have the value of the new entries; so does the catalog file after a call
  that returns no error. For the file \<^verbatim>\<open>{"a.b": "Old"}\<close> and the new entries
  \<^verbatim>\<open>{"a.b": "New", "c.d": "Added"}\<close> the file written is \<^verbatim>\<open>{"a.b": "Old", "c.d": "Added"}\<close>.
\<close>

theorem merge_keeps_existing:
  \<open>(\<exists>m'. merge_translations (Some m) ts = Inr (Some m')
         \<and> (\<forall>k. map_of m' k = (case map_of m k of Some v \<Rightarrow> Some v | None \<Rightarrow> map_of ts k)))
   \<and> (writeLocaleFile L fs path ts = Inr (None, fs') \<longrightarrow>
        (\<exists>es. files fs' path = Some (object_text L es)
           \<and> (\<forall>k. map_of es k =
                  (case existing_catalog L fs path k of Some v \<Rightarrow> Some v | None \<Rightarrow> map_of ts k))))
   \<and> outcome ''en.json''
        (writeLocaleFile golib_ascii fs_old ''en.json'' [(''a.b'', ''New''), (''c.d'', ''Added'')])
      = Inr (None, Some (''{'' @ [CHR 0x0A] @ ''  "a.b": "Old",'' @ [CHR 0x0A]
                          @ ''  "c.d": "Added"'' @ [CHR 0x0A] @ ''}''))\<close>
proof (intro conjI impI)
  obtain m' where m': "merge_translations (Some m) ts = Inr (Some m')"
    "map_of m' = map_of ts ++ map_of m"
    using merge_translations_Some [of m ts] by blast
  have "\<forall>k. map_of m' k = (case map_of m k of Some v \<Rightarrow> Some v | None \<Rightarrow> map_of ts k)"
    unfolding m'(2) by (simp add: map_add_def)
  then show "\<exists>m'. merge_translations (Some m) ts = Inr (Some m')
      \<and> (\<forall>k. map_of m' k = (case map_of m k of Some v \<Rightarrow> Some v | None \<Rightarrow> map_of ts k))"
    using m'(1) by blast
next
  assume "writeLocaleFile L fs path ts = Inr (None, fs')"
  then obtain es where es: "files fs' path = Some (object_text L es)"
    "map_of es = map_of ts ++ existing_catalog L fs path"
    using writeLocaleFile_success by blast
  have "\<forall>k. map_of es k =
          (case existing_catalog L fs path k of Some v \<Rightarrow> Some v | None \<Rightarrow> map_of ts k)"
    unfolding es(2) by (simp add: map_add_def)
  then show "\<exists>es. files fs' path = Some (object_text L es)
      \<and> (\<forall>k. map_of es k =
             (case existing_catalog L fs path k of Some v \<Rightarrow> Some v | None \<Rightarrow> map_of ts k))"
    using es(1) by blast
next
  show \<open>outcome ''en.json''
        (writeLocaleFile golib_ascii fs_old ''en.json'' [(''a.b'', ''New''), (''c.d'', ''Added'')])
      = Inr (None, Some (''{'' @ [CHR 0x0A] @ ''  "a.b": "Old",'' @ [CHR 0x0A]
                          @ ''  "c.d": "Added"'' @ [CHR 0x0A] @ ''}''))\<close>
    by code_simp
qed

theorem merge_keeps_existing_witness:
  \<open>\<exists>fs' es. writeLocaleFile golib_ascii fs_old ''en.json'' [(''c.d'', ''Added''), (''a.b'', ''New'')]
               = Inr (None, fs')
     \<and> files fs' ''en.json'' = Some (object_text golib_ascii es)
     \<and> map_of es ''a.b'' = Some ''Old'' \<and> map_of es ''c.d'' = Some ''Added''
     \<and> map_of es ''x.y'' = None\<close>
proof -
  let ?ts = "[(''c.d'', ''Added''), (''a.b'', ''New'')]"
  have "outcome ''en.json'' (writeLocaleFile golib_ascii fs_old ''en.json'' ?ts)
      = Inr (None, files (fs_old\<lparr>files := (files fs_old)(''en.json'' \<mapsto>
               object_text golib_ascii [(''a.b'', ''Old''), (''c.d'', ''Added'')])\<rparr>) ''en.json'')"
    by code_simp
  then obtain fs' where w: "writeLocaleFile golib_ascii fs_old ''en.json'' ?ts = Inr (None, fs')"
    by (cases "writeLocaleFile golib_ascii fs_old ''en.json'' ?ts")
      (auto simp: outcome_def)
  have ex: "existing_catalog golib_ascii fs_old ''en.json'' ''a.b'' = Some ''Old''"
    "existing_catalog golib_ascii fs_old ''en.json'' ''c.d'' = None"
    "existing_catalog golib_ascii fs_old ''en.json'' ''x.y'' = None"
    by code_simp+
  from merge_keeps_existing
      [where L = golib_ascii and fs = fs_old and path = "''en.json''" and ts = ?ts and fs' = fs'] w
  obtain es where es: "files fs' ''en.json'' = Some (object_text golib_ascii es)"
    "\<forall>k. map_of es k =
       (case existing_catalog golib_ascii fs_old ''en.json'' k of
          Some v \<Rightarrow> Some v | None \<Rightarrow> map_of ?ts k)"
    by blast
  have "map_of es ''a.b'' = Some ''Old''" "map_of es ''c.d'' = Some ''Added''"
    "map_of es ''x.y'' = None"
    using es(2) ex by simp_all
  then show ?thesis using w es(1) by blast
qed

text \<open>
  C8. When \<^verbatim>\<open>writeLocaleFile\<close> returns no error, the file holds a JSON object in the
  2-space-indented layout whose members are in ascending order of their keys, each key
  once, and are exactly the entries of the existing catalog together with the new
  entries whose keys it did not have.
\<close>

theorem catalog_written_sorted:
  assumes "writeLocaleFile L fs path ts = Inr (None, fs')"
  shows "\<exists>es. files fs' path = Some (object_text L es)
             \<and> sorted (map fst es) \<and> distinct (map fst es)
             \<and> map_of es = map_of ts ++ existing_catalog L fs path"
  using assms by (rule writeLocaleFile_success)

theorem catalog_written_sorted_witness:
  \<open>\<exists>fs'. writeLocaleFile golib_ascii fs_old ''en.json''
            [(''z.last'', ''Z''), (''a.b'', ''New''), (''a.a'', ''First'')] = Inr (None, fs')
     \<and> files fs' ''en.json''
        = Some (''{'' @ [CHR 0x0A] @ ''  "a.a": "First",'' @ [CHR 0x0A]
                 @ ''  "a.b": "Old",'' @ [CHR 0x0A]
                 @ ''  "z.last": "Z"'' @ [CHR 0x0A] @ ''}'')
     \<and> (\<exists>es. files fs' ''en.json'' = Some (object_text golib_ascii es)
           \<and> sorted (map fst es) \<and> distinct (map fst es))\<close>
proof -
  let ?ts = "[(''z.last'', ''Z''), (''a.b'', ''New''), (''a.a'', ''First'')]"
  have o: \<open>outcome ''en.json'' (writeLocaleFile golib_ascii fs_old ''en.json'' ?ts)
      = Inr (None, Some (''{'' @ [CHR 0x0A] @ ''  "a.a": "First",'' @ [CHR 0x0A]
                 @ ''  "a.b": "Old",'' @ [CHR 0x0A]
                 @ ''  "z.last": "Z"'' @ [CHR 0x0A] @ ''}''))\<close>
    by code_simp
  then obtain fs' where w: "writeLocaleFile golib_ascii fs_old ''en.json'' ?ts = Inr (None, fs')"
    by (cases "writeLocaleFile golib_ascii fs_old ''en.json'' ?ts")
      (auto simp: outcome_def)
  have f: \<open>files fs' ''en.json''
        = Some (''{'' @ [CHR 0x0A] @ ''  "a.a": "First",'' @ [CHR 0x0A]
                 @ ''  "a.b": "Old",'' @ [CHR 0x0A]
                 @ ''  "z.last": "Z"'' @ [CHR 0x0A] @ ''}'')\<close>
    using o unfolding w by (simp add: outcome_def)
  from catalog_written_sorted [OF w]
  have "\<exists>es. files fs' ''en.json'' = Some (object_text golib_ascii es)
           \<and> sorted (map fst es) \<and> distinct (map fst es)"
    by blast
  then show ?thesis using w f by blast
qed

text \<open>A read that fails although the file is there is not reported: the call returns no
  error and the file then holds the new entries only.\<close>

theorem read_failure_swallowed:
  \<open>ReadFile fs_unreadable ''en.json'' = Inl ErrOther
   \<and> files fs_unreadable ''en.json''
       = Some (''{'' @ [CHR 0x0A] @ ''  "a.b": "Old"'' @ [CHR 0x0A] @ ''}'')
   \<and> outcome ''en.json'' (writeLocaleFile golib_ascii fs_unreadable ''en.json'' [(''c.d'', ''Added'')])
       = Inr (None, Some (''{'' @ [CHR 0x0A] @ ''  "c.d": "Added"'' @ [CHR 0x0A] @ ''}''))\<close>
  by code_simp

text \<open>
  C5, as the code has it. Every failure to read the catalog file, a missing file or any
  other, makes the merge start from the empty catalog: no error is returned for it, the
  only error possible then is that of the write, and a write that succeeds leaves the
  new entries alone in the file. When the file is read and \<^verbatim>\<open>json.Unmarshal\<close> rejects
  it, the parse error is returned. Whenever an error other than that of the write is
  returned, the file system is as it was.
\<close>

theorem writeLocaleFile_errors:
  "(ReadFile fs path = Inl err \<longrightarrow>
      (\<exists>r fs'. writeLocaleFile L fs path ts = Inr (r, fs')
         \<and> (r = None \<or> r = Some WriteLocale)
         \<and> (write_fault fs path = NoFault \<longrightarrow> r = None)
         \<and> (r = None \<longrightarrow>
              (\<exists>es. files fs' path = Some (object_text L es) \<and> map_of es = map_of ts))))
   \<and> (ReadFile fs path = Inr data \<and> json_Unmarshal L data = UnmarshalError \<longrightarrow>
        writeLocaleFile L fs path ts = Inr (Some ParseExisting, fs))
   \<and> (writeLocaleFile L fs path ts = Inr (Some e, fs') \<and> e \<noteq> WriteLocale \<longrightarrow> fs' = fs)"
proof (intro conjI impI)
  assume r: "ReadFile fs path = Inl err"
  then have l: "loaded_catalog L fs path = Inr (Some [])"
    and ex: "existing_catalog L fs path = Map.empty"
    by (simp_all add: loaded_catalog_def existing_catalog_def)
  from writeLocaleFile_writes [OF l, of ts]
  obtain es where es: "map_of es = map_of ts ++ existing_catalog L fs path"
    and w: "writeLocaleFile L fs path ts =
              (case WriteFile fs path (object_text L es) of
                 (Some err, fs') \<Rightarrow> Inr (Some WriteLocale, fs')
               | (None, fs') \<Rightarrow> Inr (None, fs'))"
    by auto
  obtain x fs1 where wf: "WriteFile fs path (object_text L es) = (x, fs1)"
    by (cases "WriteFile fs path (object_text L es)") auto
  show "\<exists>r fs'. writeLocaleFile L fs path ts = Inr (r, fs')
         \<and> (r = None \<or> r = Some WriteLocale)
         \<and> (write_fault fs path = NoFault \<longrightarrow> r = None)
         \<and> (r = None \<longrightarrow>
              (\<exists>es. files fs' path = Some (object_text L es) \<and> map_of es = map_of ts))"
  proof (cases x)
    case None
    have "files fs1 path = Some (object_text L es)"
      using wf None by (simp add: WriteFile_ok)
    moreover have "map_of es = map_of ts" using es ex by simp
    moreover have "writeLocaleFile L fs path ts = Inr (None, fs1)"
      using w wf None by simp
    ultimately show ?thesis by blast
  next
    case (Some e')
    have "write_fault fs path \<noteq> NoFault"
      using wf Some by (auto simp: WriteFile_def)
    moreover have "writeLocaleFile L fs path ts = Inr (Some WriteLocale, fs1)"
      using w wf Some by simp
    ultimately show ?thesis by blast
  qed
next
  assume "ReadFile fs path = Inr data \<and> json_Unmarshal L data = UnmarshalError"
  then show "writeLocaleFile L fs path ts = Inr (Some ParseExisting, fs)"
    by (simp add: writeLocaleFile_loaded loaded_catalog_def)
next
  assume a: "writeLocaleFile L fs path ts = Inr (Some e, fs') \<and> e \<noteq> WriteLocale"
  show "fs' = fs"
  proof (cases "loaded_catalog L fs path")
    case (Inl e')
    then show ?thesis using a by (simp add: writeLocaleFile_loaded)
  next
    case (Inr existing)
    from writeLocaleFile_writes [OF Inr, of ts] a
    obtain es where "writeLocaleFile L fs path ts =
              (case WriteFile fs path (object_text L es) of
                 (Some err, fs') \<Rightarrow> Inr (Some WriteLocale, fs')
               | (None, fs') \<Rightarrow> Inr (None, fs'))"
      by auto
    then show ?thesis
      using a by (auto split: prod.splits option.splits)
  qed
qed

theorem writeLocaleFile_errors_witness:
  \<open>ReadFile fs_empty ''en.json'' = Inl ErrNotExist
   \<and> (\<exists>fs'. writeLocaleFile golib_ascii fs_empty ''en.json'' [(''c.d'', ''Added'')] = Inr (None, fs')
         \<and> (\<exists>es. files fs' ''en.json'' = Some (object_text golib_ascii es)
               \<and> map_of es = map_of [(''c.d'', ''Added'')]))\<close>
proof -
  have r: "ReadFile fs_empty ''en.json'' = Inl ErrNotExist"
    by code_simp
  have nf: "write_fault fs_empty ''en.json'' = NoFault"
    by code_simp
  from writeLocaleFile_errors
      [where fs = fs_empty and path = "''en.json''" and err = ErrNotExist and L = golib_ascii
         and ts = "[(''c.d'', ''Added'')]"] r nf
  show ?thesis by blast
qed


end
